theory Spec2Isabelle
  imports Main "HOL-Library.Word" "HOL-Library.Multiset"
begin

section \<open>Data model of the Minesweeper engine\<close>

text \<open>
  The engine is the C++ class \<open>Minesweeper\<close> of \<^verbatim>\<open>Minesweeper.h\<close> and
  \<^verbatim>\<open>Minesweeper.cpp\<close>.  Coordinates and dimensions are \<^verbatim>\<open>size_t\<close>, taken here as
  64-bit unsigned words, so that \<^verbatim>\<open>cell.x + i\<close> with \<^verbatim>\<open>int i = -1\<close> wraps around exactly
  as the unsigned addition of the source does, and so does \<^verbatim>\<open>height_ * width_\<close>.
  Time stamps (\<^verbatim>\<open>time_t\<close>) are integers.
\<close>

type_synonym size_t = "64 word"
type_synonym time_t = int

text \<open>\<^verbatim>\<open>struct Cell { size_t x; size_t y; }\<close>, compared by value.\<close>

datatype cell = Cell (cell_x: size_t) (cell_y: size_t)

datatype GameStatus = NOT_STARTED | IN_PROGRESS | VICTORY | DEFEAT

text \<open>
  The three \<^verbatim>\<open>std::runtime_error\<close>s of the source, named after their messages:
  "Too many mines", "Incorrect mine position" and "A cell outside the field boundary".
  The first two are raised during set-up (the specification's ConfigError), the third by
  \<^verbatim>\<open>OpenCell\<close> and \<^verbatim>\<open>MarkCell\<close> (the specification's BoundsError).
\<close>

datatype error = TooManyMines | IncorrectMinePosition | OutsideBoundary

definition ConfigError :: "error \<Rightarrow> bool" where
  "ConfigError e = (e = TooManyMines \<or> e = IncorrectMinePosition)"

definition BoundsError :: "error \<Rightarrow> bool" where
  "BoundsError e = (e = OutsideBoundary)"

text \<open>
  The private members of the class.  The three \<^verbatim>\<open>std::unordered_set<Cell>\<close>s are sets of
  cells: the source only inserts, erases, tests membership and asks for the size, never
  iterates over them.  The random generator \<^verbatim>\<open>gen_\<close> is not part of the record; the
  shuffle it drives is a parameter of the operations that use it.
\<close>

record board =
  width :: size_t
  height :: size_t
  start_time :: time_t
  finish_time :: time_t
  status :: GameStatus
  cells_with_mines :: "cell set"
  marked_cells :: "cell set"
  closed_cells :: "cell set"

text \<open>
  A member function that may throw returns the exception, if any, together with the state
  of the object when it returns or throws.
\<close>

type_synonym outcome = "error option \<times> board"

section \<open>Queries\<close>

definition IsCorrectBoundary :: "board \<Rightarrow> cell \<Rightarrow> bool" where
  "IsCorrectBoundary b c =
     (0 \<le> cell_x c \<and> cell_x c < width b \<and> 0 \<le> cell_y c \<and> cell_y c < height b)"

definition IsMine :: "board \<Rightarrow> cell \<Rightarrow> bool" where
  "IsMine b c = (c \<in> cells_with_mines b)"

definition IsMarked :: "board \<Rightarrow> cell \<Rightarrow> bool" where
  "IsMarked b c = (c \<in> marked_cells b)"

definition IsClosed :: "board \<Rightarrow> cell \<Rightarrow> bool" where
  "IsClosed b c = (c \<in> closed_cells b)"

definition IsOpened :: "board \<Rightarrow> cell \<Rightarrow> bool" where
  "IsOpened b c = (\<not> IsClosed b c)"

definition IsFinishedGame :: "board \<Rightarrow> bool" where
  "IsFinishedGame b = (status b = VICTORY \<or> status b = DEFEAT)"

definition GetGameStatus :: "board \<Rightarrow> GameStatus" where
  "GetGameStatus b = status b"

text \<open>
  The values of \<^verbatim>\<open>int i\<close> in \<^verbatim>\<open>for (int i = -1; i <= 1; ++i)\<close>, converted to
  \<^verbatim>\<open>size_t\<close> as the addition \<^verbatim>\<open>cell.x + i\<close> converts them.
\<close>

definition offsets :: "size_t list" where
  "offsets = [- 1, 0, 1]"

text \<open>
  The cells \<^verbatim>\<open>Cell{cell.x + i, cell.y + j}\<close> in the order in which the two nested loops
  over \<open>i\<close> (outer) and \<open>j\<close> (inner) build them; the cell itself (\<open>i = j = 0\<close>) is
  among them.
\<close>

definition neighbor_cells :: "cell \<Rightarrow> cell list" where
  "neighbor_cells c =
     concat (map (\<lambda>i. map (\<lambda>j. Cell (cell_x c + i) (cell_y c + j)) offsets) offsets)"

definition CalcMinesNear :: "board \<Rightarrow> cell \<Rightarrow> size_t" where
  "CalcMinesNear b c =
     fold (\<lambda>neighbor_cell result.
             if IsCorrectBoundary b neighbor_cell \<and> IsMine b neighbor_cell
             then result + 1 else result)
          (neighbor_cells c) 0"

section \<open>Set-up\<close>

text \<open>The values of \<open>i\<close> in \<^verbatim>\<open>for (size_t i = 0; i < n; ++i)\<close>, in order.\<close>

definition indices :: "size_t \<Rightarrow> size_t list" where
  "indices n = map of_nat [0..<unat n]"

definition ResetValues :: "board \<Rightarrow> board" where
  "ResetValues b =
     b\<lparr>width := 0, height := 0, start_time := 0, finish_time := 0,
       status := NOT_STARTED, marked_cells := {}, closed_cells := {},
       cells_with_mines := {}\<rparr>"

definition SetNewBoundary :: "size_t \<Rightarrow> size_t \<Rightarrow> board \<Rightarrow> board" where
  "SetNewBoundary w h b = b\<lparr>width := w, height := h\<rparr>"

definition FillClosed :: "board \<Rightarrow> board" where
  "FillClosed b =
     b\<lparr>closed_cells :=
         fold (\<lambda>y s. fold (\<lambda>x. insert (Cell x y)) (indices (width b)) s)
              (indices (height b)) (closed_cells b)\<rparr>"

text \<open>
  \<^verbatim>\<open>FillMines\<close> lists every cell column by column, shuffles the list with
  \<^verbatim>\<open>std::shuffle\<close> and inserts its first \<open>mines_count\<close> cells.  The shuffle is the
  parameter \<open>shuffle\<close>; the standard library promises that its result is a permutation
  of its argument.
\<close>

definition possible_mine :: "board \<Rightarrow> cell list" where
  "possible_mine b =
     concat (map (\<lambda>x. map (\<lambda>y. Cell x y) (indices (height b))) (indices (width b)))"

definition FillMines :: "(cell list \<Rightarrow> cell list) \<Rightarrow> size_t \<Rightarrow> board \<Rightarrow> board" where
  "FillMines shuffle mines_count b =
     (if mines_count = 0 then b
      else b\<lparr>cells_with_mines :=
               fold insert (take (unat mines_count) (shuffle (possible_mine b)))
                    (cells_with_mines b)\<rparr>)"

definition FieldDefinition_count ::
    "(cell list \<Rightarrow> cell list) \<Rightarrow> size_t \<Rightarrow> board \<Rightarrow> outcome" where
  "FieldDefinition_count shuffle mines_count b =
     (if mines_count > height b * width b then (Some TooManyMines, b)
      else (None, FillClosed (FillMines shuffle mines_count b)))"

definition FieldDefinition_list :: "cell list \<Rightarrow> board \<Rightarrow> outcome" where
  "FieldDefinition_list mine_list b =
     (if length mine_list > unat (height b * width b) then (Some TooManyMines, b)
      else if \<not> list_all (IsCorrectBoundary b) mine_list
      then (Some IncorrectMinePosition, b)
      else (None, FillClosed (b\<lparr>cells_with_mines :=
                                  fold insert mine_list (cells_with_mines b)\<rparr>)))"

definition NewGame_list :: "board \<Rightarrow> size_t \<Rightarrow> size_t \<Rightarrow> cell list \<Rightarrow> outcome" where
  "NewGame_list b w h mine_list =
     FieldDefinition_list mine_list (SetNewBoundary w h (ResetValues b))"

definition NewGame_count ::
    "(cell list \<Rightarrow> cell list) \<Rightarrow> board \<Rightarrow> size_t \<Rightarrow> size_t \<Rightarrow> size_t \<Rightarrow> outcome" where
  "NewGame_count shuffle b w h mines_count =
     FieldDefinition_count shuffle mines_count (SetNewBoundary w h (ResetValues b))"

section \<open>Playing\<close>

definition StartGame :: "time_t \<Rightarrow> board \<Rightarrow> board" where
  "StartGame now b = b\<lparr>status := IN_PROGRESS, start_time := now\<rparr>"

definition Defeat :: "time_t \<Rightarrow> board \<Rightarrow> board" where
  "Defeat now b = b\<lparr>status := DEFEAT, finish_time := now\<rparr>"

definition VictoryCheck :: "time_t \<Rightarrow> board \<Rightarrow> board" where
  "VictoryCheck now b =
     (if card (closed_cells b) \<noteq> card (cells_with_mines b) then b
      else b\<lparr>status := VICTORY, finish_time := now\<rparr>)"

definition MarkCell :: "time_t \<Rightarrow> board \<Rightarrow> cell \<Rightarrow> outcome" where
  "MarkCell now b c =
     (if \<not> IsCorrectBoundary b c then (Some OutsideBoundary, b)
      else if IsFinishedGame b then (None, b)
      else
        let b1 = (if status b = NOT_STARTED then StartGame now b else b)
        in if IsMarked b1 c
           then (None, b1\<lparr>marked_cells := marked_cells b1 - {c}\<rparr>)
           else (None, b1\<lparr>marked_cells := insert c (marked_cells b1)\<rparr>))"

text \<open>
  One pass of the body of the two nested \<open>for\<close> loops of \<^verbatim>\<open>OpenCell\<close>: the state is the
  queue and the board.
\<close>

definition visit :: "cell \<Rightarrow> cell list \<times> board \<Rightarrow> cell list \<times> board" where
  "visit neighbor_cell s =
     (case s of (q, b) \<Rightarrow>
        if IsCorrectBoundary b neighbor_cell \<and> IsClosed b neighbor_cell \<and>
           \<not> IsMarked b neighbor_cell
        then (q @ [neighbor_cell], b\<lparr>closed_cells := closed_cells b - {neighbor_cell}\<rparr>)
        else (q, b))"

definition expand :: "cell \<Rightarrow> cell list \<times> board \<Rightarrow> cell list \<times> board" where
  "expand cur_cell s = fold visit (neighbor_cells cur_cell) s"

text \<open>
  The \<open>while (!q.empty())\<close> loop of \<^verbatim>\<open>OpenCell\<close>.  Every cell that \<open>expand\<close> pushes
  is erased from the closed set at the same moment, so the number of closed cells plus the
  length of the queue drops by one with every cell popped: the loop terminates.
\<close>

function flood :: "board \<Rightarrow> cell list \<Rightarrow> board" where
  "flood b [] = b"
| "flood b (cur_cell # q) =
     (if CalcMinesNear b cur_cell = 0
      then (case expand cur_cell (q, b) of (q', b') \<Rightarrow> flood b' q')
      else flood b q)"
  by pat_completeness auto
termination
proof -
  have univ: "(UNIV :: cell set) = (\<lambda>(a, b). Cell a b) ` UNIV"
    by (auto simp: image_iff) (metis cell.exhaust)
  have "finite (UNIV :: cell set)"
    unfolding univ by (rule finite_imageI) simp
  then have fin: "finite A" for A :: "cell set"
    by (rule rev_finite_subset) simp
  have pos: "0 < card A" if "n \<in> A" for n :: cell and A
    using that fin [of A] by (auto simp: card_gt_0_iff)
  have step: "card (closed_cells b') + length q' = card (closed_cells b) + length q"
    if "visit n (q, b) = (q', b')" for n q b q' b'
    using that pos [of n "closed_cells b"]
    by (auto simp: visit_def IsClosed_def card_Diff_singleton_if split: if_splits)
  have loop: "card (closed_cells b') + length q' = card (closed_cells b) + length q"
    if "fold visit ns (q, b) = (q', b')" for ns q b q' b'
    using that
  proof (induction ns arbitrary: q b)
    case Nil
    then show ?case by simp
  next
    case (Cons n ns)
    obtain q1 b1 where v: "visit n (q, b) = (q1, b1)"
      by (cases "visit n (q, b)")
    with Cons show ?case
      using step [OF v] by simp
  qed
  show ?thesis
    apply (relation "measure (\<lambda>(b, q). card (closed_cells b) + length q)")
     apply simp
    apply (auto simp: expand_def dest!: loop [OF sym])
    done
qed

text \<open>
  \<^verbatim>\<open>OpenCell\<close> reads the clock in \<^verbatim>\<open>StartGame\<close> and again in \<^verbatim>\<open>Defeat\<close> or
  \<^verbatim>\<open>VictoryCheck\<close>; the two readings are the parameters \<open>now_start\<close> and
  \<open>now_finish\<close>.
\<close>

definition OpenCell :: "time_t \<Rightarrow> time_t \<Rightarrow> board \<Rightarrow> cell \<Rightarrow> outcome" where
  "OpenCell now_start now_finish b c =
     (if \<not> IsCorrectBoundary b c then (Some OutsideBoundary, b)
      else if IsFinishedGame b \<or> IsMarked b c \<or> IsOpened b c then (None, b)
      else
        let b1 = (if status b = NOT_STARTED then StartGame now_start b else b)
        in if IsMine b1 c then (None, Defeat now_finish b1)
           else (None, VictoryCheck now_finish
                         (flood (b1\<lparr>closed_cells := closed_cells b1 - {c}\<rparr>) [c])))"

text \<open>
  \<^verbatim>\<open>GetGameTime\<close> with the clock reading \<open>now\<close>.  Time stamps are unbounded integers
  here; the source subtracts \<^verbatim>\<open>time_t\<close> values, which agrees with this as long as the
  difference is representable (signed overflow is undefined in C++).
\<close>

definition GetGameTime :: "time_t \<Rightarrow> board \<Rightarrow> time_t" where
  "GetGameTime now b =
     (if status b = NOT_STARTED then 0
      else if status b = IN_PROGRESS then now - start_time b
      else finish_time b - start_time b)"

section \<open>Rendering\<close>

text \<open>\<^verbatim>\<open>std::to_string\<close> on an unsigned value: its decimal digits.\<close>

function to_string_nat :: "nat \<Rightarrow> string" where
  "to_string_nat n =
     (if n < 10 then [''0123456789'' ! n]
      else to_string_nat (n div 10) @ [''0123456789'' ! (n mod 10)])"
  by pat_completeness auto
termination
  by (relation "measure (\<lambda>n. n)") auto

declare to_string_nat.simps [simp del]

definition to_string :: "size_t \<Rightarrow> string" where
  "to_string n = to_string_nat (unat n)"

text \<open>What one pass of the inner loop of \<^verbatim>\<open>RenderField\<close> appends to \<open>result[y]\<close>.\<close>

definition cell_text :: "board \<Rightarrow> cell \<Rightarrow> string" where
  "cell_text b c =
     (if IsMine b c \<and> status b = DEFEAT then ''*''
      else if IsMarked b c then ''?''
      else if IsClosed b c then ''-''
      else (let mines = CalcMinesNear b c
            in if mines \<noteq> 0 then to_string mines else ''.''))"

definition RenderField :: "board \<Rightarrow> string list" where
  "RenderField b =
     fold (\<lambda>y result.
             fold (\<lambda>x result.
                     result[unat y := result ! unat y @ cell_text b (Cell x y)])
                  (indices (width b)) result)
          (indices (height b))
          (replicate (unat (height b)) [])"

section \<open>Sequences of calls\<close>

text \<open>
  A caller's sequence of \<^verbatim>\<open>OpenCell\<close> and \<^verbatim>\<open>MarkCell\<close> calls, each with the clock
  readings it sees.  A call that throws leaves the board as it was (both functions check
  the boundary before they change anything) and the sequence goes on.
\<close>

datatype call = CallOpen time_t time_t cell | CallMark time_t cell

fun play :: "board \<Rightarrow> call list \<Rightarrow> board" where
  "play b [] = b"
| "play b (CallOpen now_start now_finish c # calls) =
     play (snd (OpenCell now_start now_finish b c)) calls"
| "play b (CallMark now c # calls) = play (snd (MarkCell now b c)) calls"

text \<open>
  The specification's notion of adjacency, independent of the source's offset arithmetic:
  two different cells whose coordinates, read as natural numbers, each differ by at most
  one.
\<close>

definition adjacent :: "cell \<Rightarrow> cell \<Rightarrow> bool" where
  "adjacent c n =
     (n \<noteq> c \<and>
      \<bar>int (unat (cell_x n)) - int (unat (cell_x c))\<bar> \<le> 1 \<and>
      \<bar>int (unat (cell_y n)) - int (unat (cell_y c))\<bar> \<le> 1)"

text \<open>A board as the default member initialisers of the class leave it.\<close>

definition empty_board :: board where
  "empty_board =
     \<lparr>width = 0, height = 0, start_time = 0, finish_time = 0, status = NOT_STARTED,
      cells_with_mines = {}, marked_cells = {}, closed_cells = {}\<rparr>"

text \<open>
  The two constructors.  They start from the default member initialisers, store the
  dimensions (the explicit-list constructor also initialises the mine set from the list)
  and call \<^verbatim>\<open>FieldDefinition\<close>.  When that throws, construction fails and no object
  exists; the board component of the outcome is then only the state at the throw.
\<close>

definition Minesweeper_list :: "size_t \<Rightarrow> size_t \<Rightarrow> cell list \<Rightarrow> outcome" where
  "Minesweeper_list w h mine_list =
     FieldDefinition_list mine_list
       (empty_board\<lparr>width := w, height := h, cells_with_mines := set mine_list\<rparr>)"

definition Minesweeper_count ::
    "(cell list \<Rightarrow> cell list) \<Rightarrow> size_t \<Rightarrow> size_t \<Rightarrow> size_t \<Rightarrow> outcome" where
  "Minesweeper_count shuffle w h mines_count =
     FieldDefinition_count shuffle mines_count (empty_board\<lparr>width := w, height := h\<rparr>)"

text \<open>The board that a successful set-up with the mine set \<open>ms\<close> leaves.\<close>

definition fresh :: "size_t \<Rightarrow> size_t \<Rightarrow> cell set \<Rightarrow> board" where
  "fresh w h ms =
     \<lparr>width = w, height = h, start_time = 0, finish_time = 0, status = NOT_STARTED,
      cells_with_mines = ms, marked_cells = {},
      closed_cells = {c. cell_x c < w \<and> cell_y c < h}\<rparr>"

text \<open>
  The two halves of the relation between the status and the sizes of the closed and mine
  sets, as invariants of a board.
\<close>

definition victory_sound :: "board \<Rightarrow> bool" where
  "victory_sound b =
     (status b = VICTORY \<longrightarrow> card (closed_cells b) = card (cells_with_mines b))"

definition victory_complete :: "board \<Rightarrow> bool" where
  "victory_complete b =
     (status b = NOT_STARTED \<or> status b = IN_PROGRESS \<longrightarrow>
        card (closed_cells b) \<noteq> card (cells_with_mines b))"

text \<open>
  The character of a cell as the specification words it: the precedence is mine on a lost
  board, then flag, then closed, then the neighbour-mine count.
\<close>

definition cell_char :: "board \<Rightarrow> cell \<Rightarrow> char" where
  "cell_char b c =
     (if IsMine b c \<and> status b = DEFEAT then CHR ''*''
      else if IsMarked b c then CHR ''?''
      else if IsClosed b c then CHR ''-''
      else if CalcMinesNear b c = 0 then CHR ''.''
      else ''0123456789'' ! unat (CalcMinesNear b c))"

section \<open>Unfolding rules\<close>

lemmas query_defs = IsMine_def IsMarked_def IsClosed_def IsOpened_def IsFinishedGame_def
lemmas setup_defs = NewGame_list_def NewGame_count_def FieldDefinition_list_def
  FieldDefinition_count_def SetNewBoundary_def ResetValues_def

section \<open>Defeat and the terminal states\<close>

text \<open>
  Claim C2.  Opening an in-bounds, unflagged, still closed mine cell on a board that is
  NOT_STARTED or IN_PROGRESS returns normally with status DEFEAT and the finish time set to
  the clock reading; nothing else changes except that a NOT_STARTED board also gets its
  start time, so no cell is opened.  And on a board whose status is VICTORY or DEFEAT,
  \<open>OpenCell\<close> and \<open>MarkCell\<close> on any in-bounds cell return the board as it was.
\<close>

theorem OpenCell_mine_defeat_terminal:
  "(IsCorrectBoundary b c \<and> \<not> IsMarked b c \<and> IsClosed b c \<and> IsMine b c \<and>
    (status b = NOT_STARTED \<or> status b = IN_PROGRESS) \<longrightarrow>
      OpenCell now_start now_finish b c =
        (None, b\<lparr>status := DEFEAT, finish_time := now_finish,
                 start_time := (if status b = NOT_STARTED then now_start else start_time b)\<rparr>))
   \<and>
   (IsCorrectBoundary b2 c2 \<and> (status b2 = VICTORY \<or> status b2 = DEFEAT) \<longrightarrow>
      OpenCell now_start now_finish b2 c2 = (None, b2) \<and> MarkCell now b2 c2 = (None, b2))"
  by (auto simp: OpenCell_def MarkCell_def query_defs StartGame_def Defeat_def Let_def)

theorem OpenCell_mine_defeat_terminal_witness:
  "(IsCorrectBoundary (snd (NewGame_list empty_board 2 2 [Cell 0 0])) (Cell 0 0) \<and>
    \<not> IsMarked (snd (NewGame_list empty_board 2 2 [Cell 0 0])) (Cell 0 0) \<and>
    IsClosed (snd (NewGame_list empty_board 2 2 [Cell 0 0])) (Cell 0 0) \<and>
    IsMine (snd (NewGame_list empty_board 2 2 [Cell 0 0])) (Cell 0 0) \<and>
    status (snd (NewGame_list empty_board 2 2 [Cell 0 0])) = NOT_STARTED) \<and>
   (IsCorrectBoundary (snd (OpenCell 7 9 (snd (NewGame_list empty_board 2 2 [Cell 0 0])) (Cell 0 0)))
      (Cell 1 1) \<and>
    status (snd (OpenCell 7 9 (snd (NewGame_list empty_board 2 2 [Cell 0 0])) (Cell 0 0))) = DEFEAT) \<and>
   finish_time (snd (OpenCell 7 9 (snd (NewGame_list empty_board 2 2 [Cell 0 0])) (Cell 0 0))) = 9 \<and>
   closed_cells (snd (OpenCell 7 9 (snd (NewGame_list empty_board 2 2 [Cell 0 0])) (Cell 0 0))) =
     closed_cells (snd (NewGame_list empty_board 2 2 [Cell 0 0])) \<and>
   snd (OpenCell 7 9 (snd (OpenCell 7 9 (snd (NewGame_list empty_board 2 2 [Cell 0 0])) (Cell 0 0)))
      (Cell 1 1)) =
     snd (OpenCell 7 9 (snd (NewGame_list empty_board 2 2 [Cell 0 0])) (Cell 0 0)) \<and>
   snd (MarkCell 13 (snd (OpenCell 7 9 (snd (NewGame_list empty_board 2 2 [Cell 0 0])) (Cell 0 0)))
      (Cell 1 1)) =
     snd (OpenCell 7 9 (snd (NewGame_list empty_board 2 2 [Cell 0 0])) (Cell 0 0))"
proof -
  let ?b = "snd (NewGame_list empty_board 2 2 [Cell 0 0])"
  let ?d = "snd (OpenCell 7 9 ?b (Cell 0 0))"
  have h1: "IsCorrectBoundary ?b (Cell 0 0) \<and> \<not> IsMarked ?b (Cell 0 0) \<and>
      IsClosed ?b (Cell 0 0) \<and> IsMine ?b (Cell 0 0) \<and> status ?b = NOT_STARTED"
    by code_simp
  have h2: "IsCorrectBoundary ?d (Cell 1 1) \<and> status ?d = DEFEAT"
    by code_simp
  note r = OpenCell_mine_defeat_terminal [of ?b "Cell 0 0" 7 9 ?d "Cell 1 1" 13]
  from r h1 have o: "OpenCell 7 9 ?b (Cell 0 0) =
      (None, ?b\<lparr>status := DEFEAT, finish_time := 9,
                start_time := (if status ?b = NOT_STARTED then 7 else start_time ?b)\<rparr>)"
    by blast
  have f: "finish_time ?d = 9" and c: "closed_cells ?d = closed_cells ?b"
    by (simp_all add: o)
  from r h2 have "OpenCell 7 9 ?d (Cell 1 1) = (None, ?d) \<and> MarkCell 13 ?d (Cell 1 1) = (None, ?d)"
    by blast
  with h1 h2 f c show ?thesis
    by (simp only: snd_conv simp_thms)
qed

section \<open>Counting neighbours and the flood fill\<close>

lemma finite_cells [simp]: "finite (A :: cell set)"
proof -
  have "(UNIV :: cell set) = (\<lambda>(a, b). Cell a b) ` UNIV"
    by (auto simp: image_iff) (metis cell.exhaust)
  then have "finite (UNIV :: cell set)"
    by (metis finite_imageI finite_code)
  then show ?thesis by (rule rev_finite_subset) simp
qed

lemma count_fold:
  "fold (\<lambda>n r. if P n then r + 1 else r) ns (a :: size_t) = a + of_nat (length (filter P ns))"
  by (induction ns arbitrary: a) (simp_all add: algebra_simps)

lemma length_neighbor_cells: "length (neighbor_cells c) = 9"
  by (simp add: neighbor_cells_def offsets_def)

lemma CalcMinesNear_filter:
  "CalcMinesNear b c =
     of_nat (length (filter (\<lambda>n. IsCorrectBoundary b n \<and> IsMine b n) (neighbor_cells c)))"
  by (simp add: CalcMinesNear_def count_fold)

lemma unat_CalcMinesNear:
  "unat (CalcMinesNear b c) =
     length (filter (\<lambda>n. IsCorrectBoundary b n \<and> IsMine b n) (neighbor_cells c))"
proof -
  have "length (filter (\<lambda>n. IsCorrectBoundary b n \<and> IsMine b n) (neighbor_cells c)) \<le> 9"
    using length_filter_le [of _ "neighbor_cells c"] by (simp add: length_neighbor_cells)
  then show ?thesis
    by (simp add: CalcMinesNear_filter unat_of_nat)
qed

lemma CalcMinesNear_zero_iff:
  "CalcMinesNear b c = 0 \<longleftrightarrow>
     (\<forall>n \<in> set (neighbor_cells c). IsCorrectBoundary b n \<longrightarrow> \<not> IsMine b n)"
proof -
  have "CalcMinesNear b c = 0 \<longleftrightarrow> unat (CalcMinesNear b c) = 0"
    by (simp add: unat_eq_0)
  then show ?thesis
    by (auto simp: unat_CalcMinesNear filter_empty_conv)
qed

lemma visit_result:
  "visit n (q, b) =
     (if IsCorrectBoundary b n \<and> n \<in> closed_cells b \<and> n \<notin> marked_cells b
      then (q @ [n], b\<lparr>closed_cells := closed_cells b - {n}\<rparr>) else (q, b))"
  by (simp add: visit_def query_defs)

lemma IsCorrectBoundary_closed_update [simp]:
  "IsCorrectBoundary (b\<lparr>closed_cells := C\<rparr>) = IsCorrectBoundary b"
  by (rule ext) (simp add: IsCorrectBoundary_def)

lemma fold_visit_result:
  "\<exists>new. fold visit ns (q, b) =
      (q @ new,
       b\<lparr>closed_cells := closed_cells b -
            {n \<in> set ns. IsCorrectBoundary b n \<and> n \<notin> marked_cells b}\<rparr>) \<and>
     set new = {n \<in> set ns. IsCorrectBoundary b n \<and> n \<in> closed_cells b \<and> n \<notin> marked_cells b}"
proof (induction ns arbitrary: q b)
  case Nil
  then show ?case by simp
next
  case (Cons n ns)
  show ?case
  proof (cases "IsCorrectBoundary b n \<and> n \<in> closed_cells b \<and> n \<notin> marked_cells b")
    case True
    let ?b1 = "b\<lparr>closed_cells := closed_cells b - {n}\<rparr>"
    from Cons.IH [of "q @ [n]" ?b1] obtain new where
      f: "fold visit ns (q @ [n], ?b1) =
          ((q @ [n]) @ new, ?b1\<lparr>closed_cells := closed_cells ?b1 -
             {m \<in> set ns. IsCorrectBoundary ?b1 m \<and> m \<notin> marked_cells ?b1}\<rparr>)"
      and s: "set new = {m \<in> set ns. IsCorrectBoundary ?b1 m \<and> m \<in> closed_cells ?b1 \<and>
             m \<notin> marked_cells ?b1}"
      by blast
    have "fold visit (n # ns) (q, b) = (q @ (n # new),
       b\<lparr>closed_cells := closed_cells b -
            {m \<in> set (n # ns). IsCorrectBoundary b m \<and> m \<notin> marked_cells b}\<rparr>)"
      using True f by (simp add: visit_result) (rule arg_cong [where f = "\<lambda>C. b\<lparr>closed_cells := C\<rparr>"], auto)
    moreover have "set (n # new) =
        {m \<in> set (n # ns). IsCorrectBoundary b m \<and> m \<in> closed_cells b \<and> m \<notin> marked_cells b}"
      using True s by auto
    ultimately show ?thesis by blast
  next
    case False
    from Cons.IH [of q b] obtain new where
      f: "fold visit ns (q, b) =
          (q @ new, b\<lparr>closed_cells := closed_cells b -
             {m \<in> set ns. IsCorrectBoundary b m \<and> m \<notin> marked_cells b}\<rparr>)"
      and s: "set new = {m \<in> set ns. IsCorrectBoundary b m \<and> m \<in> closed_cells b \<and>
             m \<notin> marked_cells b}"
      by blast
    have e: "closed_cells b - {m \<in> set (n # ns). IsCorrectBoundary b m \<and> m \<notin> marked_cells b} =
          closed_cells b - {m \<in> set ns. IsCorrectBoundary b m \<and> m \<notin> marked_cells b}"
      using False by auto
    have v: "visit n (q, b) = (q, b)"
      using False by (auto simp: visit_result)
    have "fold visit (n # ns) (q, b) = fold visit ns (q, b)"
      by (simp add: v)
    then have "fold visit (n # ns) (q, b) = (q @ new,
       b\<lparr>closed_cells := closed_cells b -
            {m \<in> set (n # ns). IsCorrectBoundary b m \<and> m \<notin> marked_cells b}\<rparr>)"
      by (simp only: e f)
    moreover have "set new =
        {m \<in> set (n # ns). IsCorrectBoundary b m \<and> m \<in> closed_cells b \<and> m \<notin> marked_cells b}"
      using False s by auto
    ultimately show ?thesis by blast
  qed
qed

lemma expand_result:
  "\<exists>new. expand c (q, b) =
      (q @ new,
       b\<lparr>closed_cells := closed_cells b -
            {n \<in> set (neighbor_cells c). IsCorrectBoundary b n \<and> n \<notin> marked_cells b}\<rparr>) \<and>
     set new = {n \<in> set (neighbor_cells c).
                 IsCorrectBoundary b n \<and> n \<in> closed_cells b \<and> n \<notin> marked_cells b}"
  unfolding expand_def by (rule fold_visit_result)

declare flood.simps [simp del]

lemma flood_shape:
  "\<exists>C. flood b q = b\<lparr>closed_cells := C\<rparr> \<and> C \<subseteq> closed_cells b \<and>
       (\<forall>n \<in> closed_cells b - C.
          IsCorrectBoundary b n \<and> n \<notin> marked_cells b \<and> n \<notin> cells_with_mines b)"
proof (induction b q rule: flood.induct)
  case (1 b)
  have "flood b [] = b\<lparr>closed_cells := closed_cells b\<rparr>" by (simp add: flood.simps)
  then show ?case by blast
next
  case (2 b cur_cell q)
  show ?case
  proof (cases "CalcMinesNear b cur_cell = 0")
    case True
    let ?E = "{n \<in> set (neighbor_cells cur_cell). IsCorrectBoundary b n \<and> n \<notin> marked_cells b}"
    let ?b1 = "b\<lparr>closed_cells := closed_cells b - ?E\<rparr>"
    from expand_result [of cur_cell q b] obtain new where
      e: "expand cur_cell (q, b) = (q @ new, ?b1)" by blast
    from "2.IH"(1) [OF True e [symmetric]] obtain C where
      f: "flood ?b1 (q @ new) = ?b1\<lparr>closed_cells := C\<rparr>" and
      s: "C \<subseteq> closed_cells ?b1" and
      r: "\<forall>n \<in> closed_cells ?b1 - C.
            IsCorrectBoundary ?b1 n \<and> n \<notin> marked_cells ?b1 \<and> n \<notin> cells_with_mines ?b1"
      by blast
    have c1: "closed_cells ?b1 = closed_cells b - ?E" by simp
    have m1: "marked_cells ?b1 = marked_cells b" by simp
    have w1: "cells_with_mines ?b1 = cells_with_mines b" by simp
    have i1: "IsCorrectBoundary ?b1 = IsCorrectBoundary b" by simp
    note s' = s [unfolded c1] and r' = r [unfolded c1 m1 w1 i1]
    have nomine: "n \<notin> cells_with_mines b" if "n \<in> ?E" for n
      using that True unfolding CalcMinesNear_zero_iff IsMine_def by blast
    have "flood b (cur_cell # q) = flood ?b1 (q @ new)"
      by (simp only: flood.simps True if_True e prod.case simp_thms)
    then have "flood b (cur_cell # q) = b\<lparr>closed_cells := C\<rparr>"
      by (simp only: f) simp
    moreover have "C \<subseteq> closed_cells b" using s' by blast
    moreover have "\<forall>n \<in> closed_cells b - C.
          IsCorrectBoundary b n \<and> n \<notin> marked_cells b \<and> n \<notin> cells_with_mines b"
    proof
      fix n assume n: "n \<in> closed_cells b - C"
      show "IsCorrectBoundary b n \<and> n \<notin> marked_cells b \<and> n \<notin> cells_with_mines b"
      proof (cases "n \<in> ?E")
        case True
        then show ?thesis using nomine [OF True] by blast
      next
        case False
        with n have "n \<in> closed_cells b - ?E - C" by blast
        with r' show ?thesis by blast
      qed
    qed
    ultimately show ?thesis by blast
  next
    case False
    have "flood b (cur_cell # q) = flood b q"
      by (simp only: flood.simps False if_False)
    with "2.IH"(2) [OF False] show ?thesis
      by (simp only:)
  qed
qed

lemma flood_closed_eq:
  assumes "flood b q = b\<lparr>closed_cells := C\<rparr>"
  shows "closed_cells (flood b q) = C"
  using assms by simp

lemma flood_frame: "flood b q = b\<lparr>closed_cells := closed_cells (flood b q)\<rparr>"
proof -
  from flood_shape [of b q] obtain C where c: "flood b q = b\<lparr>closed_cells := C\<rparr>"
    by blast
  show ?thesis
    unfolding flood_closed_eq [OF c] by (rule c)
qed

lemma flood_closed_subset: "closed_cells (flood b q) \<subseteq> closed_cells b"
proof -
  from flood_shape [of b q] obtain C where c: "flood b q = b\<lparr>closed_cells := C\<rparr>"
    and s: "C \<subseteq> closed_cells b"
    by blast
  show ?thesis
    unfolding flood_closed_eq [OF c] by (rule s)
qed

lemma flood_erased:
  assumes "n \<in> closed_cells b" and "n \<notin> closed_cells (flood b q)"
  shows "IsCorrectBoundary b n \<and> n \<notin> marked_cells b \<and> n \<notin> cells_with_mines b"
proof -
  from flood_shape [of b q] obtain C where c: "flood b q = b\<lparr>closed_cells := C\<rparr>"
    and r: "\<forall>n \<in> closed_cells b - C.
          IsCorrectBoundary b n \<and> n \<notin> marked_cells b \<and> n \<notin> cells_with_mines b"
    by blast
  from assms(2) have "n \<notin> C"
    unfolding flood_closed_eq [OF c] .
  with assms(1) r show ?thesis by blast
qed

lemma flood_fields [simp]:
  "width (flood b q) = width b" "height (flood b q) = height b"
  "status (flood b q) = status b" "start_time (flood b q) = start_time b"
  "finish_time (flood b q) = finish_time b"
  "cells_with_mines (flood b q) = cells_with_mines b"
  "marked_cells (flood b q) = marked_cells b"
proof -
  from flood_shape [of b q] obtain C where c: "flood b q = b\<lparr>closed_cells := C\<rparr>"
    by blast
  show "width (flood b q) = width b" "height (flood b q) = height b"
    "status (flood b q) = status b" "start_time (flood b q) = start_time b"
    "finish_time (flood b q) = finish_time b"
    "cells_with_mines (flood b q) = cells_with_mines b"
    "marked_cells (flood b q) = marked_cells b"
    by (simp_all add: c)
qed

section \<open>What set-up builds\<close>

lemma set_indices: "set (indices n) = {i. i < n}"
proof (rule set_eqI)
  fix i :: size_t
  show "i \<in> set (indices n) \<longleftrightarrow> i \<in> {i. i < n}"
  proof
    assume "i \<in> set (indices n)"
    then obtain k where k: "k < unat n" and i: "i = of_nat k"
      by (auto simp: indices_def)
    have "unat (of_nat k :: size_t) \<le> k"
      by (simp add: unat_of_nat)
    with k have "(of_nat k :: size_t) < n"
      by (simp add: word_less_nat_alt)
    with i show "i \<in> {i. i < n}" by simp
  next
    assume "i \<in> {i. i < n}"
    then have "unat i < unat n" by (simp add: word_less_nat_alt)
    moreover have "i = of_nat (unat i)" by simp
    ultimately show "i \<in> set (indices n)"
      unfolding indices_def by (metis atLeast0LessThan imageI lessThan_iff set_map set_upt)
  qed
qed

lemma in_bounds_iff: "IsCorrectBoundary b c \<longleftrightarrow> cell_x c < width b \<and> cell_y c < height b"
  by (simp add: IsCorrectBoundary_def)

lemma fold_insert_row:
  "fold (\<lambda>x. insert (Cell x y)) xs s = s \<union> (\<lambda>x. Cell x y) ` set xs"
  by (induction xs arbitrary: s) auto

lemma fold_insert_row_fun:
  "fold (\<lambda>x. insert (Cell x y)) xs = (\<lambda>s. s \<union> (\<lambda>x. Cell x y) ` set xs)"
  by (rule ext) (rule fold_insert_row)

lemma fold_insert_rows:
  "fold (\<lambda>y s. s \<union> (\<lambda>x. Cell x y) ` X) ys s =
     s \<union> {c. cell_x c \<in> X \<and> cell_y c \<in> set ys}"
proof (induction ys arbitrary: s)
  case Nil
  then show ?case by simp
next
  case (Cons y ys)
  have img: "(\<lambda>x. Cell x y) ` X = {c. cell_x c \<in> X \<and> cell_y c = y}"
    by (auto simp: image_iff) (metis cell.collapse)
  have "fold (\<lambda>y s. s \<union> (\<lambda>x. Cell x y) ` X) (y # ys) s =
      (s \<union> {c. cell_x c \<in> X \<and> cell_y c = y}) \<union>
      {c. cell_x c \<in> X \<and> cell_y c \<in> set ys}"
    by (simp add: Cons.IH img)
  also have "\<dots> = s \<union> {c. cell_x c \<in> X \<and> cell_y c \<in> set (y # ys)}"
    by auto
  finally show ?case .
qed

lemma FillClosed_closed:
  "FillClosed b = b\<lparr>closed_cells := closed_cells b \<union> {c. IsCorrectBoundary b c}\<rparr>"
  by (simp add: FillClosed_def fold_insert_row_fun fold_insert_rows set_indices in_bounds_iff)

lemma set_possible_mine: "set (possible_mine b) = {c. IsCorrectBoundary b c}"
proof -
  have "set (possible_mine b) =
      {c. cell_x c \<in> set (indices (width b)) \<and> cell_y c \<in> set (indices (height b))}"
    unfolding possible_mine_def
    by (auto simp: image_iff) (metis cell.collapse)
  then show ?thesis
    by (simp add: set_indices in_bounds_iff)
qed

lemma fold_insert_set: "fold insert xs s = s \<union> set xs"
  by (induction xs arbitrary: s) auto

lemma NewGame_list_fails:
  "fst (NewGame_list b w h mine_list) \<noteq> None \<longleftrightarrow>
     length mine_list > unat (h * w) \<or> (\<exists>c \<in> set mine_list. \<not> (cell_x c < w \<and> cell_y c < h))"
  by (auto simp: setup_defs list_all_iff in_bounds_iff)

lemma NewGame_list_success:
  assumes "fst (NewGame_list b w h mine_list) = None"
  shows "snd (NewGame_list b w h mine_list) = fresh w h (set mine_list)"
  using assms
  by (auto simp: setup_defs FillClosed_closed fold_insert_set in_bounds_iff fresh_def
      split: if_splits)

lemma NewGame_count_fails:
  "fst (NewGame_count shuffle b w h mines_count) \<noteq> None \<longleftrightarrow> mines_count > h * w"
  by (auto simp: setup_defs)

lemma NewGame_count_success:
  assumes "fst (NewGame_count shuffle b w h mines_count) = None"
  shows "snd (NewGame_count shuffle b w h mines_count) =
     fresh w h (if mines_count = 0 then {}
        else set (take (unat mines_count)
          (shuffle (possible_mine (SetNewBoundary w h (ResetValues b))))))"
  using assms
  by (auto simp: setup_defs FillClosed_closed FillMines_def fold_insert_set in_bounds_iff
      fresh_def split: if_splits)

section \<open>Effect of one call\<close>

lemmas play_defs = OpenCell_def MarkCell_def StartGame_def Defeat_def VictoryCheck_def

lemma MarkCell_frame [simp]:
  "width (snd (MarkCell now b c)) = width b"
  "height (snd (MarkCell now b c)) = height b"
  "cells_with_mines (snd (MarkCell now b c)) = cells_with_mines b"
  "closed_cells (snd (MarkCell now b c)) = closed_cells b"
  by (simp_all add: play_defs Let_def)

lemma OpenCell_frame [simp]:
  "width (snd (OpenCell now_start now_finish b c)) = width b"
  "height (snd (OpenCell now_start now_finish b c)) = height b"
  "cells_with_mines (snd (OpenCell now_start now_finish b c)) = cells_with_mines b"
  "marked_cells (snd (OpenCell now_start now_finish b c)) = marked_cells b"
  by (simp_all add: play_defs Let_def)

lemma OpenCell_closed_subset:
  "closed_cells (snd (OpenCell now_start now_finish b c)) \<subseteq> closed_cells b"
proof -
  have "closed_cells (flood (b'\<lparr>closed_cells := closed_cells b - {c}\<rparr>) [c]) \<subseteq> closed_cells b"
    for b' :: board
    using flood_closed_subset [of "b'\<lparr>closed_cells := closed_cells b - {c}\<rparr>" "[c]"]
    by auto
  then show ?thesis
    by (simp add: play_defs Let_def)
qed

lemma OpenCell_erased:
  assumes "n \<in> closed_cells b" and "n \<notin> closed_cells (snd (OpenCell now_start now_finish b c))"
  shows "IsCorrectBoundary b n \<and> n \<notin> marked_cells b \<and> n \<notin> cells_with_mines b"
proof -
  let ?b1 = "if status b = NOT_STARTED then StartGame now_start b else b"
  let ?b2 = "?b1\<lparr>closed_cells := closed_cells ?b1 - {c}\<rparr>"
  have flooded: "closed_cells (snd (OpenCell now_start now_finish b c)) = closed_cells (flood ?b2 [c])"
    and c: "IsCorrectBoundary b c" "c \<notin> marked_cells b" "c \<notin> cells_with_mines b"
    using assms
    by (auto simp: play_defs Let_def query_defs split: if_splits)
  have f2: "closed_cells ?b2 = closed_cells b - {c}" "marked_cells ?b2 = marked_cells b"
    "cells_with_mines ?b2 = cells_with_mines b" "IsCorrectBoundary ?b2 = IsCorrectBoundary b"
    by (auto simp: StartGame_def IsCorrectBoundary_def fun_eq_iff)
  show ?thesis
  proof (cases "n = c")
    case True
    with c show ?thesis by simp
  next
    case False
    with assms(1) have "n \<in> closed_cells ?b2"
      unfolding f2 by simp
    moreover from assms(2) have "n \<notin> closed_cells (flood ?b2 [c])"
      unfolding flooded .
    ultimately show ?thesis
      using flood_erased [of n ?b2 "[c]"] unfolding f2 by blast
  qed
qed

section \<open>Flags\<close>

text \<open>
  Claim C9.  On a board that is not finished, \<open>MarkCell\<close> on an in-bounds cell returns
  normally and toggles the membership of the cell in the flagged set, leaving every other
  cell's flag alone; a second \<open>MarkCell\<close> on the same cell gives back the flagged set
  from before the first.
\<close>

theorem MarkCell_toggle:
  "IsCorrectBoundary b c \<and> \<not> IsFinishedGame b \<longrightarrow>
     fst (MarkCell now b c) = None \<and>
     IsMarked (snd (MarkCell now b c)) c = (\<not> IsMarked b c) \<and>
     marked_cells (snd (MarkCell now b c)) - {c} = marked_cells b - {c} \<and>
     marked_cells (snd (MarkCell now2 (snd (MarkCell now b c)) c)) = marked_cells b"
  by (auto simp: play_defs Let_def query_defs IsCorrectBoundary_def)

theorem MarkCell_toggle_witness:
  "(IsCorrectBoundary (snd (NewGame_list empty_board 2 2 [Cell 0 0])) (Cell 1 0) \<and>
    \<not> IsFinishedGame (snd (NewGame_list empty_board 2 2 [Cell 0 0]))) \<and>
   IsMarked (snd (MarkCell 3 (snd (NewGame_list empty_board 2 2 [Cell 0 0])) (Cell 1 0))) (Cell 1 0) =
     (\<not> IsMarked (snd (NewGame_list empty_board 2 2 [Cell 0 0])) (Cell 1 0)) \<and>
   marked_cells (snd (MarkCell 4 (snd (MarkCell 3 (snd (NewGame_list empty_board 2 2 [Cell 0 0]))
       (Cell 1 0))) (Cell 1 0))) =
     marked_cells (snd (NewGame_list empty_board 2 2 [Cell 0 0]))"
proof -
  have h: "IsCorrectBoundary (snd (NewGame_list empty_board 2 2 [Cell 0 0])) (Cell 1 0) \<and>
    \<not> IsFinishedGame (snd (NewGame_list empty_board 2 2 [Cell 0 0]))"
    by code_simp
  from MarkCell_toggle [of "snd (NewGame_list empty_board 2 2 [Cell 0 0])" "Cell 1 0" 3 4] h
  show ?thesis by blast
qed

text \<open>
  Claim C7.  \<open>OpenCell\<close> on an in-bounds flagged cell returns the board unchanged.  In
  particular, after \<open>MarkCell\<close> has flagged an unflagged cell of an unfinished game,
  \<open>OpenCell\<close> on it changes nothing: the cell is flagged, and closed if it was.  And
  whatever cell \<open>OpenCell\<close> is called on, a cell that is flagged and closed before the
  call is flagged and closed after it.
\<close>

theorem OpenCell_respects_flags:
  "(IsCorrectBoundary b c \<and> IsMarked b c \<longrightarrow> OpenCell now_start now_finish b c = (None, b)) \<and>
   (IsCorrectBoundary b2 c2 \<and> \<not> IsFinishedGame b2 \<and> \<not> IsMarked b2 c2 \<longrightarrow>
      OpenCell now_start now_finish (snd (MarkCell now b2 c2)) c2 =
        (None, snd (MarkCell now b2 c2)) \<and>
      IsMarked (snd (MarkCell now b2 c2)) c2 \<and>
      IsClosed (snd (MarkCell now b2 c2)) c2 = IsClosed b2 c2) \<and>
   (IsMarked b3 f \<and> IsClosed b3 f \<longrightarrow>
      IsMarked (snd (OpenCell now_start now_finish b3 c3)) f \<and>
      IsClosed (snd (OpenCell now_start now_finish b3 c3)) f)"
proof (intro conjI impI)
  assume "IsCorrectBoundary b c \<and> IsMarked b c"
  then show "OpenCell now_start now_finish b c = (None, b)"
    by (simp add: OpenCell_def)
next
  assume a: "IsCorrectBoundary b2 c2 \<and> \<not> IsFinishedGame b2 \<and> \<not> IsMarked b2 c2"
  then show m: "IsMarked (snd (MarkCell now b2 c2)) c2"
    by (simp add: play_defs Let_def query_defs)
  from a have "IsCorrectBoundary (snd (MarkCell now b2 c2)) c2"
    by (simp add: IsCorrectBoundary_def)
  with m show "OpenCell now_start now_finish (snd (MarkCell now b2 c2)) c2 =
      (None, snd (MarkCell now b2 c2))"
    by (simp add: OpenCell_def)
  show "IsClosed (snd (MarkCell now b2 c2)) c2 = IsClosed b2 c2"
    by (simp add: IsClosed_def)
next
  assume a: "IsMarked b3 f \<and> IsClosed b3 f"
  then show "IsMarked (snd (OpenCell now_start now_finish b3 c3)) f"
    by (simp add: IsMarked_def)
  show "IsClosed (snd (OpenCell now_start now_finish b3 c3)) f"
    using a OpenCell_erased [of f b3 now_start now_finish c3]
    unfolding IsMarked_def IsClosed_def by blast
qed

theorem OpenCell_respects_flags_witness:
  "(IsCorrectBoundary (snd (MarkCell 3 (snd (NewGame_list empty_board 2 2 [])) (Cell 1 0))) (Cell 1 0) \<and>
    IsMarked (snd (MarkCell 3 (snd (NewGame_list empty_board 2 2 [])) (Cell 1 0))) (Cell 1 0)) \<and>
   (IsCorrectBoundary (snd (NewGame_list empty_board 2 2 [])) (Cell 1 0) \<and>
    \<not> IsFinishedGame (snd (NewGame_list empty_board 2 2 [])) \<and>
    \<not> IsMarked (snd (NewGame_list empty_board 2 2 [])) (Cell 1 0)) \<and>
   (IsMarked (snd (MarkCell 3 (snd (NewGame_list empty_board 2 2 [])) (Cell 1 0))) (Cell 1 0) \<and>
    IsClosed (snd (MarkCell 3 (snd (NewGame_list empty_board 2 2 [])) (Cell 1 0))) (Cell 1 0)) \<and>
   OpenCell 4 5 (snd (MarkCell 3 (snd (NewGame_list empty_board 2 2 [])) (Cell 1 0))) (Cell 1 0) =
     (None, snd (MarkCell 3 (snd (NewGame_list empty_board 2 2 [])) (Cell 1 0))) \<and>
   IsMarked (snd (OpenCell 4 5 (snd (MarkCell 3 (snd (NewGame_list empty_board 2 2 [])) (Cell 1 0)))
      (Cell 0 1))) (Cell 1 0) \<and>
   IsClosed (snd (OpenCell 4 5 (snd (MarkCell 3 (snd (NewGame_list empty_board 2 2 [])) (Cell 1 0)))
      (Cell 0 1))) (Cell 1 0)"
proof -
  let ?b = "snd (NewGame_list empty_board 2 2 [])"
  let ?m = "snd (MarkCell 3 ?b (Cell 1 0))"
  have h1: "IsCorrectBoundary ?m (Cell 1 0) \<and> IsMarked ?m (Cell 1 0)"
    by code_simp
  have h2: "IsCorrectBoundary ?b (Cell 1 0) \<and> \<not> IsFinishedGame ?b \<and> \<not> IsMarked ?b (Cell 1 0)"
    by code_simp
  have h3: "IsMarked ?m (Cell 1 0) \<and> IsClosed ?m (Cell 1 0)"
    by code_simp
  from OpenCell_respects_flags [of ?m "Cell 1 0" 4 5 ?b "Cell 1 0" 3 ?m "Cell 1 0" "Cell 0 1"]
    h1 h2 h3
  show ?thesis by blast
qed

section \<open>Failing set-up\<close>

text \<open>
  Claim C3, as stated: a \<open>NewGame\<close> that fails leaves the board as it was.  It does not:
  \<open>NewGame\<close> resets the board and stores the new dimensions before it validates the
  mines.  On a 2 by 2 board with one mine, a \<open>NewGame\<close> for a 1 by 1 board with a mine
  at (5, 5) fails with "Incorrect mine position" and leaves a board that differs from the
  one before the call.
\<close>

theorem NewGame_failure_keeps_board_counterexample:
  "fst (NewGame_list (snd (NewGame_list empty_board 2 2 [Cell 0 0])) 1 1 [Cell 5 5]) =
     Some IncorrectMinePosition \<and>
   ConfigError IncorrectMinePosition \<and>
   snd (NewGame_list (snd (NewGame_list empty_board 2 2 [Cell 0 0])) 1 1 [Cell 5 5]) \<noteq>
     snd (NewGame_list empty_board 2 2 [Cell 0 0])"
proof -
  have "width (snd (NewGame_list (snd (NewGame_list empty_board 2 2 [Cell 0 0])) 1 1 [Cell 5 5])) = 1"
    by code_simp
  moreover have "width (snd (NewGame_list empty_board 2 2 [Cell 0 0])) = 2"
    by code_simp
  ultimately have "snd (NewGame_list (snd (NewGame_list empty_board 2 2 [Cell 0 0])) 1 1 [Cell 5 5]) \<noteq>
     snd (NewGame_list empty_board 2 2 [Cell 0 0])"
    by (auto dest: arg_cong [where f = width])
  moreover have "fst (NewGame_list (snd (NewGame_list empty_board 2 2 [Cell 0 0])) 1 1 [Cell 5 5]) =
     Some IncorrectMinePosition"
    by (simp add: setup_defs IsCorrectBoundary_def)
  ultimately show ?thesis
    by (simp add: ConfigError_def)
qed

text \<open>
  Claim C3, amended.  When \<open>NewGame\<close> fails (either overload), the exception is one of
  the two set-up errors and the board is left reset, with the dimensions of the failed
  call: status NOT_STARTED, both time stamps 0, and the mine, flagged and closed sets
  empty, whatever the board was before.
\<close>

theorem NewGame_failure_resets_board:
  "(fst (NewGame_list b w h mine_list) \<noteq> None \<longrightarrow>
      (fst (NewGame_list b w h mine_list) = Some TooManyMines \<or>
       fst (NewGame_list b w h mine_list) = Some IncorrectMinePosition) \<and>
      snd (NewGame_list b w h mine_list) =
        \<lparr>width = w, height = h, start_time = 0, finish_time = 0, status = NOT_STARTED,
         cells_with_mines = {}, marked_cells = {}, closed_cells = {}\<rparr>) \<and>
   (fst (NewGame_count shuffle b2 w2 h2 mines_count) \<noteq> None \<longrightarrow>
      fst (NewGame_count shuffle b2 w2 h2 mines_count) = Some TooManyMines \<and>
      snd (NewGame_count shuffle b2 w2 h2 mines_count) =
        \<lparr>width = w2, height = h2, start_time = 0, finish_time = 0, status = NOT_STARTED,
         cells_with_mines = {}, marked_cells = {}, closed_cells = {}\<rparr>)"
  by (simp add: setup_defs)

theorem NewGame_failure_resets_board_witness:
  "fst (NewGame_list (snd (NewGame_list empty_board 2 2 [Cell 0 0])) 1 1 [Cell 5 5]) \<noteq> None \<and>
   fst (NewGame_count (\<lambda>xs. xs) (snd (NewGame_list empty_board 2 2 [Cell 0 0])) 3 2 7) \<noteq> None \<and>
   snd (NewGame_list (snd (NewGame_list empty_board 2 2 [Cell 0 0])) 1 1 [Cell 5 5]) =
        \<lparr>width = 1, height = 1, start_time = 0, finish_time = 0, status = NOT_STARTED,
         cells_with_mines = {}, marked_cells = {}, closed_cells = {}\<rparr> \<and>
   snd (NewGame_count (\<lambda>xs. xs) (snd (NewGame_list empty_board 2 2 [Cell 0 0])) 3 2 7) =
        \<lparr>width = 3, height = 2, start_time = 0, finish_time = 0, status = NOT_STARTED,
         cells_with_mines = {}, marked_cells = {}, closed_cells = {}\<rparr>"
proof -
  have h1: "fst (NewGame_list (snd (NewGame_list empty_board 2 2 [Cell 0 0])) 1 1 [Cell 5 5]) \<noteq> None"
    by (simp add: setup_defs IsCorrectBoundary_def)
  have h2: "fst (NewGame_count (\<lambda>xs. xs) (snd (NewGame_list empty_board 2 2 [Cell 0 0])) 3 2 7) \<noteq> None"
    by (simp add: setup_defs)
  from NewGame_failure_resets_board [of "snd (NewGame_list empty_board 2 2 [Cell 0 0])" 1 1
      "[Cell 5 5]" "\<lambda>xs. xs" "snd (NewGame_list empty_board 2 2 [Cell 0 0])" 3 2 7] h1 h2
  show ?thesis by blast
qed

section \<open>Mines stay closed\<close>

lemma OpenCell_keeps_mines_closed:
  assumes "cells_with_mines b \<subseteq> closed_cells b"
  shows "cells_with_mines (snd (OpenCell now_start now_finish b c)) \<subseteq>
         closed_cells (snd (OpenCell now_start now_finish b c))"
proof
  fix n
  assume "n \<in> cells_with_mines (snd (OpenCell now_start now_finish b c))"
  then have m: "n \<in> cells_with_mines b" by simp
  with assms have "n \<in> closed_cells b" by blast
  with m show "n \<in> closed_cells (snd (OpenCell now_start now_finish b c))"
    using OpenCell_erased [of n b now_start now_finish c] by blast
qed

lemma play_keeps_mines_closed:
  "cells_with_mines b \<subseteq> closed_cells b \<Longrightarrow>
   cells_with_mines (play b calls) \<subseteq> closed_cells (play b calls)"
proof (induction b calls rule: play.induct)
  case (1 b)
  then show ?case by simp
next
  case (2 b now_start now_finish c calls)
  then show ?case
    using OpenCell_keeps_mines_closed [of b now_start now_finish c] by simp
next
  case (3 b now c calls)
  then show ?case by simp
qed

lemma play_frame [simp]:
  "width (play b calls) = width b" "height (play b calls) = height b"
  "cells_with_mines (play b calls) = cells_with_mines b"
  by (induction b calls rule: play.induct) simp_all

lemma fresh_fields [simp]:
  "width (fresh w h ms) = w" "height (fresh w h ms) = h"
  "status (fresh w h ms) = NOT_STARTED" "cells_with_mines (fresh w h ms) = ms"
  "closed_cells (fresh w h ms) = {c. cell_x c < w \<and> cell_y c < h}"
  "marked_cells (fresh w h ms) = {}"
  by (simp_all add: fresh_def)

lemma shuffled_mines_in_bounds:
  assumes "\<forall>xs. mset (shuffle xs) = mset xs"
  shows "set (take k (shuffle (possible_mine (SetNewBoundary w h (ResetValues b))))) \<subseteq>
         {c. cell_x c < w \<and> cell_y c < h}"
proof -
  let ?b = "SetNewBoundary w h (ResetValues b)"
  have "set (shuffle (possible_mine ?b)) = set (possible_mine ?b)"
    using assms by (metis mset_eq_setD)
  also have "\<dots> = {c. cell_x c < w \<and> cell_y c < h}"
    by (simp add: set_possible_mine in_bounds_iff SetNewBoundary_def ResetValues_def)
  finally show ?thesis
    using set_take_subset [of k "shuffle (possible_mine ?b)"] by simp
qed

lemma NewGame_list_mines_closed:
  "cells_with_mines (snd (NewGame_list b w h mine_list)) \<subseteq>
   closed_cells (snd (NewGame_list b w h mine_list))"
proof (cases "fst (NewGame_list b w h mine_list) = None")
  case True
  then have "\<forall>c \<in> set mine_list. cell_x c < w \<and> cell_y c < h"
    using NewGame_list_fails [of b w h mine_list] by blast
  then show ?thesis
    by (auto simp: NewGame_list_success [OF True])
next
  case False
  then show ?thesis
    by (auto simp: setup_defs split: if_splits)
qed

lemma NewGame_count_mines_closed:
  assumes "\<forall>xs. mset (shuffle xs) = mset xs"
  shows "cells_with_mines (snd (NewGame_count shuffle b w h mines_count)) \<subseteq>
         closed_cells (snd (NewGame_count shuffle b w h mines_count))"
proof (cases "fst (NewGame_count shuffle b w h mines_count) = None")
  case True
  show ?thesis
    using shuffled_mines_in_bounds [OF assms, of "unat mines_count" w h b]
    by (simp add: NewGame_count_success [OF True])
next
  case False
  then show ?thesis
    by (auto simp: setup_defs split: if_splits)
qed

text \<open>
  Claim C10.  A successful set-up puts exactly the cells of the grid into the closed set,
  and in every state the engine can be in afterwards, whatever the sequence of
  \<open>OpenCell\<close> and \<open>MarkCell\<close> calls, every mine cell is still in the closed set.  The
  same holds for the reset board that a failed \<open>NewGame\<close> leaves, which has no mines.
  The shuffle of the mine-count overload is assumed to return a permutation of its
  argument.
\<close>

theorem mines_stay_closed:
  assumes "b0 = snd (NewGame_list b w h mine_list) \<or>
           b0 = snd (NewGame_count shuffle b w h mines_count) \<and>
           (\<forall>xs. mset (shuffle xs) = mset xs)"
  shows "cells_with_mines (play b0 calls) \<subseteq> closed_cells (play b0 calls) \<and>
         (fst (NewGame_list b w h mine_list) = None \<longrightarrow>
            closed_cells (snd (NewGame_list b w h mine_list)) =
              {c. IsCorrectBoundary (snd (NewGame_list b w h mine_list)) c}) \<and>
         (fst (NewGame_count shuffle b w h mines_count) = None \<longrightarrow>
            closed_cells (snd (NewGame_count shuffle b w h mines_count)) =
              {c. IsCorrectBoundary (snd (NewGame_count shuffle b w h mines_count)) c})"
proof (intro conjI impI)
  from assms have "cells_with_mines b0 \<subseteq> closed_cells b0"
    using NewGame_list_mines_closed [of b w h mine_list]
      NewGame_count_mines_closed [of shuffle b w h mines_count]
    by blast
  then show "cells_with_mines (play b0 calls) \<subseteq> closed_cells (play b0 calls)"
    by (rule play_keeps_mines_closed)
next
  assume "fst (NewGame_list b w h mine_list) = None"
  then show "closed_cells (snd (NewGame_list b w h mine_list)) =
      {c. IsCorrectBoundary (snd (NewGame_list b w h mine_list)) c}"
    by (simp add: NewGame_list_success in_bounds_iff)
next
  assume "fst (NewGame_count shuffle b w h mines_count) = None"
  then show "closed_cells (snd (NewGame_count shuffle b w h mines_count)) =
      {c. IsCorrectBoundary (snd (NewGame_count shuffle b w h mines_count)) c}"
    by (simp add: NewGame_count_success in_bounds_iff)
qed

theorem mines_stay_closed_witness:
  "(\<forall>xs :: cell list. mset (rev xs) = mset xs) \<and>
   fst (NewGame_list empty_board 3 2 [Cell 2 1]) = None \<and>
   fst (NewGame_count rev empty_board 3 2 2) = None \<and>
   cells_with_mines (play (snd (NewGame_count rev empty_board 3 2 2))
       [CallOpen 1 2 (Cell 0 0), CallMark 3 (Cell 2 0), CallOpen 4 5 (Cell 1 1)]) \<subseteq>
     closed_cells (play (snd (NewGame_count rev empty_board 3 2 2))
       [CallOpen 1 2 (Cell 0 0), CallMark 3 (Cell 2 0), CallOpen 4 5 (Cell 1 1)]) \<and>
   closed_cells (snd (NewGame_list empty_board 3 2 [Cell 2 1])) =
     {c. IsCorrectBoundary (snd (NewGame_list empty_board 3 2 [Cell 2 1])) c}"
proof -
  have h1: "\<forall>xs :: cell list. mset (rev xs) = mset xs" by simp
  have h2: "fst (NewGame_list empty_board 3 2 [Cell 2 1]) = None" by code_simp
  have h3: "fst (NewGame_count rev empty_board 3 2 2) = None" by code_simp
  from mines_stay_closed [of "snd (NewGame_count rev empty_board 3 2 2)" empty_board 3 2
      "[Cell 2 1]" rev 2
      "[CallOpen 1 2 (Cell 0 0), CallMark 3 (Cell 2 0), CallOpen 4 5 (Cell 1 1)]"] h1 h2 h3
  show ?thesis by blast
qed

section \<open>Victory\<close>

lemma flood_status_after_start:
  assumes "\<not> IsFinishedGame b"
  shows "status (flood ((if status b = NOT_STARTED then StartGame now b else b)
                        \<lparr>closed_cells := C\<rparr>) q) = IN_PROGRESS"
  using assms by (cases "status b") (simp_all add: StartGame_def IsFinishedGame_def)

lemma OpenCell_status_cases:
  "snd (OpenCell now_start now_finish b c) = b \<or>
   status (snd (OpenCell now_start now_finish b c)) = DEFEAT \<or>
   status (snd (OpenCell now_start now_finish b c)) = VICTORY \<and>
     card (closed_cells (snd (OpenCell now_start now_finish b c))) = card (cells_with_mines b) \<or>
   status (snd (OpenCell now_start now_finish b c)) = IN_PROGRESS \<and>
     card (closed_cells (snd (OpenCell now_start now_finish b c))) \<noteq> card (cells_with_mines b)"
proof -
  let ?b1 = "if status b = NOT_STARTED then StartGame now_start b else b"
  let ?f = "flood (?b1\<lparr>closed_cells := closed_cells ?b1 - {c}\<rparr>) [c]"
  have "(OpenCell now_start now_finish b c = (None, b) \<or>
        OpenCell now_start now_finish b c = (Some OutsideBoundary, b)) \<or>
      OpenCell now_start now_finish b c = (None, Defeat now_finish ?b1) \<or>
      \<not> IsFinishedGame b \<and> OpenCell now_start now_finish b c = (None, VictoryCheck now_finish ?f)"
    by (simp add: OpenCell_def Let_def)
  then consider (same) "OpenCell now_start now_finish b c = (None, b) \<or>
        OpenCell now_start now_finish b c = (Some OutsideBoundary, b)"
    | (mine) "OpenCell now_start now_finish b c = (None, Defeat now_finish ?b1)"
    | (fill) "\<not> IsFinishedGame b" "OpenCell now_start now_finish b c = (None, VictoryCheck now_finish ?f)"
    by blast
  then show ?thesis
  proof cases
    case same
    then show ?thesis by auto
  next
    case mine
    then show ?thesis by (simp add: Defeat_def)
  next
    case fill
    have st: "status ?f = IN_PROGRESS"
      by (rule flood_status_after_start [OF fill(1)])
    have mi: "cells_with_mines ?f = cells_with_mines b"
      by (simp add: StartGame_def)
    show ?thesis
    proof (cases "card (closed_cells ?f) = card (cells_with_mines ?f)")
      case True
      then have "status (VictoryCheck now_finish ?f) = VICTORY"
        "closed_cells (VictoryCheck now_finish ?f) = closed_cells ?f"
        by (simp_all add: VictoryCheck_def)
      with True mi fill(2) show ?thesis by simp
    next
      case False
      then have "VictoryCheck now_finish ?f = ?f"
        by (simp add: VictoryCheck_def)
      with False mi st fill(2) show ?thesis by simp
    qed
  qed
qed

lemma MarkCell_status_cases:
  "status (snd (MarkCell now b c)) = status b \<or>
   status b = NOT_STARTED \<and> status (snd (MarkCell now b c)) = IN_PROGRESS"
  by (simp add: play_defs Let_def)

lemma OpenCell_victory_sound:
  "victory_sound b \<Longrightarrow> victory_sound (snd (OpenCell now_start now_finish b c))"
  using OpenCell_status_cases [of now_start now_finish b c]
  unfolding victory_sound_def by (auto simp del: OpenCell_frame simp: OpenCell_frame(3))

lemma OpenCell_victory_complete:
  "victory_complete b \<Longrightarrow> victory_complete (snd (OpenCell now_start now_finish b c))"
  using OpenCell_status_cases [of now_start now_finish b c]
  unfolding victory_complete_def by (auto simp del: OpenCell_frame simp: OpenCell_frame(3))

lemma MarkCell_victory_sound:
  "victory_sound b \<Longrightarrow> victory_sound (snd (MarkCell now b c))"
  using MarkCell_status_cases [of now b c]
  unfolding victory_sound_def by auto

lemma MarkCell_victory_complete:
  "victory_complete b \<Longrightarrow> victory_complete (snd (MarkCell now b c))"
  using MarkCell_status_cases [of now b c]
  unfolding victory_complete_def by auto

lemma play_victory_sound: "victory_sound b \<Longrightarrow> victory_sound (play b calls)"
  by (induction b calls rule: play.induct)
    (simp_all add: OpenCell_victory_sound MarkCell_victory_sound)

lemma play_victory_complete: "victory_complete b \<Longrightarrow> victory_complete (play b calls)"
  by (induction b calls rule: play.induct)
    (simp_all add: OpenCell_victory_complete MarkCell_victory_complete)

lemma fresh_victory_complete:
  assumes "ms \<subseteq> {c. cell_x c < w \<and> cell_y c < h}" and "cell_x c < w" "cell_y c < h" "c \<notin> ms"
  shows "victory_complete (fresh w h ms)"
proof -
  from assms have "ms \<subset> {c. cell_x c < w \<and> cell_y c < h}" by blast
  then have "card ms < card {c. cell_x c < w \<and> cell_y c < h}"
    by (rule psubset_card_mono [OF finite_cells])
  then show ?thesis
    by (simp add: victory_complete_def fresh_def)
qed

lemma OpenCell_all_mines:
  assumes "\<forall>c. IsCorrectBoundary b c \<longrightarrow> IsMine b c"
  shows "closed_cells (snd (OpenCell now_start now_finish b c)) = closed_cells b \<and>
         (status b \<noteq> VICTORY \<longrightarrow> status (snd (OpenCell now_start now_finish b c)) \<noteq> VICTORY)"
proof -
  have "IsMine (if status b = NOT_STARTED then StartGame now_start b else b) c = IsMine b c"
    by (simp add: IsMine_def StartGame_def)
  with assms show ?thesis
    by (auto simp: OpenCell_def Let_def Defeat_def StartGame_def)
qed

lemma play_all_mines:
  assumes "\<forall>c. IsCorrectBoundary b c \<longrightarrow> IsMine b c" and "status b \<noteq> VICTORY"
  shows "closed_cells (play b calls) = closed_cells b \<and> status (play b calls) \<noteq> VICTORY"
  using assms
proof (induction b calls rule: play.induct)
  case (1 b)
  then show ?case by simp
next
  case (2 b now_start now_finish c calls)
  let ?b' = "snd (OpenCell now_start now_finish b c)"
  have "\<forall>c. IsCorrectBoundary ?b' c \<longrightarrow> IsMine ?b' c"
    using "2.prems"(1) by (simp add: IsCorrectBoundary_def IsMine_def)
  moreover have "status ?b' \<noteq> VICTORY" and c: "closed_cells ?b' = closed_cells b"
    using OpenCell_all_mines [OF "2.prems"(1), of now_start now_finish c] "2.prems"(2) by simp_all
  ultimately show ?case
    using "2.IH" by (simp add: c)
next
  case (3 b now c calls)
  let ?b' = "snd (MarkCell now b c)"
  have "\<forall>c. IsCorrectBoundary ?b' c \<longrightarrow> IsMine ?b' c"
    using "3.prems"(1) by (simp add: IsCorrectBoundary_def IsMine_def)
  moreover have "status ?b' \<noteq> VICTORY"
    using MarkCell_status_cases [of now b c] "3.prems"(2) by auto
  ultimately show ?case
    using "3.IH" by simp
qed

lemma successful_setup_fresh:
  assumes "NewGame_list b w h mine_list = (None, b0) \<or>
           NewGame_count shuffle b w h mines_count = (None, b0) \<and>
           (\<forall>xs. mset (shuffle xs) = mset xs)"
  shows "\<exists>ms. b0 = fresh w h ms \<and> ms \<subseteq> {c. cell_x c < w \<and> cell_y c < h}"
  using assms
proof
  assume a: "NewGame_list b w h mine_list = (None, b0)"
  then have ok: "fst (NewGame_list b w h mine_list) = None" by simp
  then have "\<forall>c \<in> set mine_list. cell_x c < w \<and> cell_y c < h"
    using NewGame_list_fails [of b w h mine_list] by blast
  moreover have "b0 = fresh w h (set mine_list)"
    using NewGame_list_success [OF ok] a by simp
  ultimately show ?thesis by blast
next
  assume a: "NewGame_count shuffle b w h mines_count = (None, b0) \<and>
           (\<forall>xs. mset (shuffle xs) = mset xs)"
  then have ok: "fst (NewGame_count shuffle b w h mines_count) = None" by simp
  let ?ms = "if mines_count = 0 then {}
        else set (take (unat mines_count)
          (shuffle (possible_mine (SetNewBoundary w h (ResetValues b)))))"
  have "b0 = fresh w h ?ms"
    using NewGame_count_success [OF ok] a by simp
  moreover have "?ms \<subseteq> {c. cell_x c < w \<and> cell_y c < h}"
    using shuffled_mines_in_bounds [of shuffle "unat mines_count" w h b] a by simp
  ultimately show ?thesis by blast
qed

text \<open>
  Claim C1, as stated: after a successful \<open>NewGame\<close> and any sequence of calls, the status
  is VICTORY exactly when the closed set and the mine set have the same size and the
  status is not DEFEAT.  It fails on a board whose every cell is a mine: on the 1 by 1
  board with its one cell mined the two sets have size 1 from the start, and after a
  \<open>MarkCell\<close> the status is IN_PROGRESS, not VICTORY.
\<close>

theorem victory_iff_sizes_counterexample:
  "fst (NewGame_list empty_board 1 1 [Cell 0 0]) = None \<and>
   \<not> (GetGameStatus (play (snd (NewGame_list empty_board 1 1 [Cell 0 0])) [CallMark 5 (Cell 0 0)]) =
        VICTORY \<longleftrightarrow>
      card (closed_cells (play (snd (NewGame_list empty_board 1 1 [Cell 0 0]))
              [CallMark 5 (Cell 0 0)])) =
      card (cells_with_mines (play (snd (NewGame_list empty_board 1 1 [Cell 0 0]))
              [CallMark 5 (Cell 0 0)])) \<and>
      GetGameStatus (play (snd (NewGame_list empty_board 1 1 [Cell 0 0])) [CallMark 5 (Cell 0 0)]) \<noteq>
        DEFEAT)"
  by code_simp

text \<open>
  Claim C1, amended.  After a successful \<open>NewGame\<close> (either overload) and any sequence of
  \<open>OpenCell\<close> and \<open>MarkCell\<close> calls: if the status is VICTORY then the closed set and
  the mine set have the same size; and if the board has at least one cell that is not a
  mine, the status is VICTORY exactly when the two sizes are equal and the status is not
  DEFEAT.  (On a board whose every cell is a mine the closed set never changes and the
  status is never VICTORY: lemma \<open>play_all_mines\<close>.)  The shuffle of the mine-count overload is assumed to return a
  permutation of its argument.
\<close>

theorem victory_iff_sizes:
  assumes "NewGame_list b w h mine_list = (None, b0) \<or>
           NewGame_count shuffle b w h mines_count = (None, b0) \<and>
           (\<forall>xs. mset (shuffle xs) = mset xs)"
  shows "(GetGameStatus (play b0 calls) = VICTORY \<longrightarrow>
            card (closed_cells (play b0 calls)) = card (cells_with_mines (play b0 calls))) \<and>
         ((\<exists>c. IsCorrectBoundary b0 c \<and> \<not> IsMine b0 c) \<longrightarrow>
            (GetGameStatus (play b0 calls) = VICTORY \<longleftrightarrow>
               card (closed_cells (play b0 calls)) = card (cells_with_mines (play b0 calls)) \<and>
               GetGameStatus (play b0 calls) \<noteq> DEFEAT))"
proof -
  from successful_setup_fresh [OF assms] obtain ms where
    b0: "b0 = fresh w h ms" and ms: "ms \<subseteq> {c. cell_x c < w \<and> cell_y c < h}"
    by blast
  have "victory_sound b0"
    by (simp add: victory_sound_def b0)
  then have sound: "victory_sound (play b0 calls)"
    by (rule play_victory_sound)
  have complete: "victory_complete (play b0 calls)"
    if "\<exists>c. IsCorrectBoundary b0 c \<and> \<not> IsMine b0 c"
  proof -
    from that obtain c where "cell_x c < w" "cell_y c < h" "c \<notin> ms"
      by (auto simp: b0 in_bounds_iff IsMine_def)
    from fresh_victory_complete [OF ms this] show ?thesis
      unfolding b0 by (rule play_victory_complete)
  qed
  show ?thesis
  proof (intro conjI impI)
    assume "GetGameStatus (play b0 calls) = VICTORY"
    with sound show "card (closed_cells (play b0 calls)) = card (cells_with_mines (play b0 calls))"
      by (simp add: victory_sound_def GetGameStatus_def)
  next
    assume "\<exists>c. IsCorrectBoundary b0 c \<and> \<not> IsMine b0 c"
    from complete [OF this] sound
    show "GetGameStatus (play b0 calls) = VICTORY \<longleftrightarrow>
        card (closed_cells (play b0 calls)) = card (cells_with_mines (play b0 calls)) \<and>
        GetGameStatus (play b0 calls) \<noteq> DEFEAT"
      unfolding victory_sound_def victory_complete_def GetGameStatus_def
      by (cases "status (play b0 calls)") simp_all
  qed
qed

theorem victory_iff_sizes_witness:
  "NewGame_list empty_board 2 1 [Cell 0 0] = (None, snd (NewGame_list empty_board 2 1 [Cell 0 0])) \<and>
   (\<exists>c. IsCorrectBoundary (snd (NewGame_list empty_board 2 1 [Cell 0 0])) c \<and>
        \<not> IsMine (snd (NewGame_list empty_board 2 1 [Cell 0 0])) c) \<and>
   (GetGameStatus (play (snd (NewGame_list empty_board 2 1 [Cell 0 0])) [CallOpen 1 2 (Cell 1 0)]) =
        VICTORY \<longleftrightarrow>
      card (closed_cells (play (snd (NewGame_list empty_board 2 1 [Cell 0 0]))
              [CallOpen 1 2 (Cell 1 0)])) =
      card (cells_with_mines (play (snd (NewGame_list empty_board 2 1 [Cell 0 0]))
              [CallOpen 1 2 (Cell 1 0)])) \<and>
      GetGameStatus (play (snd (NewGame_list empty_board 2 1 [Cell 0 0])) [CallOpen 1 2 (Cell 1 0)]) \<noteq>
        DEFEAT) \<and>
   GetGameStatus (play (snd (NewGame_list empty_board 2 1 [Cell 0 0])) [CallOpen 1 2 (Cell 1 0)]) =
     VICTORY"
proof -
  let ?b0 = "snd (NewGame_list empty_board 2 1 [Cell 0 0])"
  have "fst (NewGame_list empty_board 2 1 [Cell 0 0]) = None"
    by code_simp
  then have h1: "NewGame_list empty_board 2 1 [Cell 0 0] = (None, ?b0)"
    by (metis prod.collapse)
  have "IsCorrectBoundary ?b0 (Cell 1 0) \<and> \<not> IsMine ?b0 (Cell 1 0)"
    by code_simp
  then have h2: "\<exists>c. IsCorrectBoundary ?b0 c \<and> \<not> IsMine ?b0 c"
    by blast
  have v: "GetGameStatus (play ?b0 [CallOpen 1 2 (Cell 1 0)]) = VICTORY"
    by code_simp
  from victory_iff_sizes [of empty_board 2 1 "[Cell 0 0]" ?b0 "\<lambda>xs. xs" 0
      "[CallOpen 1 2 (Cell 1 0)]"] h1 h2 v
  show ?thesis by blast
qed

section \<open>Which set-ups fail\<close>

lemma unat_capacity:
  fixes w h :: size_t
  shows "unat (h * w) \<le> unat w * unat h"
    and "unat w * unat h < 2 ^ 64 \<Longrightarrow> unat (h * w) = unat w * unat h"
proof -
  have m: "unat (h * w) = (unat h * unat w) mod 2 ^ 64"
    by (simp add: unat_word_ariths)
  show "unat (h * w) \<le> unat w * unat h"
    unfolding m by (simp add: mult.commute)
  show "unat (h * w) = unat w * unat h" if "unat w * unat h < 2 ^ 64"
    unfolding m using that by (simp add: mult.commute)
qed

text \<open>
  Claim C8, as stated, has \<open>NewGame\<close> fail exactly when the mines do not fit into the grid
  or lie outside it.  The source compares with \<^verbatim>\<open>height_ * width_\<close>, a \<^verbatim>\<open>size_t\<close> product:
  for a grid of \<open>2\<^sup>3\<^sup>2\<close> by \<open>2\<^sup>3\<^sup>2\<close> cells it wraps around to 0, and both overloads
  fail with "Too many mines" for a single mine at (0, 0), although one mine does not
  exceed the number of cells and the coordinate is inside the grid.
\<close>

theorem NewGame_fails_exactly_counterexample:
  "fst (NewGame_list empty_board 4294967296 4294967296 [Cell 0 0]) = Some TooManyMines \<and>
   fst (NewGame_count rev empty_board 4294967296 4294967296 1) = Some TooManyMines \<and>
   \<not> length [Cell 0 0] > unat (4294967296 :: size_t) * unat (4294967296 :: size_t) \<and>
   \<not> unat (1 :: size_t) > unat (4294967296 :: size_t) * unat (4294967296 :: size_t) \<and>
   cell_x (Cell 0 0) < 4294967296 \<and> cell_y (Cell 0 0) < 4294967296"
  by (simp add: setup_defs)

text \<open>
  Claim C8, amended.  For all inputs: the mine-count overload fails whenever the count
  exceeds the number of cells \<open>width*height\<close>, and the explicit-list overload fails
  whenever the size of the list exceeds the number of cells or some listed coordinate is
  outside the grid.  Conversely, provided the number of cells fits into a \<^verbatim>\<open>size_t\<close>,
  each overload fails only then, so that it fails exactly then.  For all inputs again:
  every failure is one of the two set-up errors; a successful explicit set-up has exactly
  the listed cells as mines; and after every successful set-up the number of mines is at
  most the number of cells.
\<close>

theorem NewGame_fails_exactly:
  "(unat mines_count > unat w * unat h \<longrightarrow>
      fst (NewGame_count shuffle b w h mines_count) \<noteq> None) \<and>
   (length mine_list > unat w * unat h \<or>
    (\<exists>c \<in> set mine_list. \<not> (cell_x c < w \<and> cell_y c < h)) \<longrightarrow>
      fst (NewGame_list b w h mine_list) \<noteq> None) \<and>
   (unat w * unat h < 2 ^ 64 \<longrightarrow>
      (fst (NewGame_count shuffle b w h mines_count) \<noteq> None) =
        (unat mines_count > unat w * unat h) \<and>
      (fst (NewGame_list b w h mine_list) \<noteq> None) =
        (length mine_list > unat w * unat h \<or>
         (\<exists>c \<in> set mine_list. \<not> (cell_x c < w \<and> cell_y c < h)))) \<and>
   fst (NewGame_count shuffle b w h mines_count) \<in> {None, Some TooManyMines} \<and>
   fst (NewGame_list b w h mine_list) \<in> {None, Some TooManyMines, Some IncorrectMinePosition} \<and>
   ConfigError TooManyMines \<and> ConfigError IncorrectMinePosition \<and>
   (fst (NewGame_list b2 w2 h2 mine_list2) = None \<longrightarrow>
      cells_with_mines (snd (NewGame_list b2 w2 h2 mine_list2)) = set mine_list2 \<and>
      card (cells_with_mines (snd (NewGame_list b2 w2 h2 mine_list2))) \<le> unat w2 * unat h2) \<and>
   (fst (NewGame_count shuffle2 b2 w2 h2 mines_count2) = None \<longrightarrow>
      card (cells_with_mines (snd (NewGame_count shuffle2 b2 w2 h2 mines_count2))) \<le>
        unat w2 * unat h2)"
proof (intro conjI impI)
  assume "unat mines_count > unat w * unat h"
  with unat_capacity(1) [of h w] have "unat (h * w) < unat mines_count"
    by simp
  then show "fst (NewGame_count shuffle b w h mines_count) \<noteq> None"
    by (simp only: NewGame_count_fails word_less_nat_alt)
next
  assume "length mine_list > unat w * unat h \<or>
    (\<exists>c \<in> set mine_list. \<not> (cell_x c < w \<and> cell_y c < h))"
  with unat_capacity(1) [of h w] have "length mine_list > unat (h * w) \<or>
    (\<exists>c \<in> set mine_list. \<not> (cell_x c < w \<and> cell_y c < h))"
    by auto
  then show "fst (NewGame_list b w h mine_list) \<noteq> None"
    by (simp only: NewGame_list_fails)
next
  assume fits: "unat w * unat h < 2 ^ 64"
  show "(fst (NewGame_count shuffle b w h mines_count) \<noteq> None) =
      (unat mines_count > unat w * unat h)"
    by (simp only: NewGame_count_fails word_less_nat_alt unat_capacity(2) [OF fits])
  show "(fst (NewGame_list b w h mine_list) \<noteq> None) =
      (length mine_list > unat w * unat h \<or>
       (\<exists>c \<in> set mine_list. \<not> (cell_x c < w \<and> cell_y c < h)))"
    by (simp only: NewGame_list_fails unat_capacity(2) [OF fits])
next
  show "fst (NewGame_count shuffle b w h mines_count) \<in> {None, Some TooManyMines}"
    by (simp add: setup_defs)
  show "fst (NewGame_list b w h mine_list) \<in> {None, Some TooManyMines, Some IncorrectMinePosition}"
    by (simp add: setup_defs)
  show "ConfigError TooManyMines" "ConfigError IncorrectMinePosition"
    by (simp_all add: ConfigError_def)
next
  assume ok: "fst (NewGame_list b2 w2 h2 mine_list2) = None"
  then have len: "length mine_list2 \<le> unat (h2 * w2)"
    using NewGame_list_fails [of b2 w2 h2 mine_list2] by auto
  show "cells_with_mines (snd (NewGame_list b2 w2 h2 mine_list2)) = set mine_list2"
    by (simp add: NewGame_list_success [OF ok] fresh_def)
  then show "card (cells_with_mines (snd (NewGame_list b2 w2 h2 mine_list2))) \<le> unat w2 * unat h2"
    using card_length [of mine_list2] len unat_capacity(1) [of h2 w2] by simp
next
  assume ok: "fst (NewGame_count shuffle2 b2 w2 h2 mines_count2) = None"
  then have le: "mines_count2 \<le> h2 * w2"
    using NewGame_count_fails [of shuffle2 b2 w2 h2 mines_count2] by auto
  let ?xs = "take (unat mines_count2)
      (shuffle2 (possible_mine (SetNewBoundary w2 h2 (ResetValues b2))))"
  have "card (set ?xs) \<le> length ?xs"
    by (rule card_length)
  also have "\<dots> \<le> unat mines_count2"
    by simp
  also have "\<dots> \<le> unat (h2 * w2)"
    using le by (simp add: word_le_nat_alt)
  also have "\<dots> \<le> unat w2 * unat h2"
    by (rule unat_capacity(1))
  finally show "card (cells_with_mines (snd (NewGame_count shuffle2 b2 w2 h2 mines_count2))) \<le>
      unat w2 * unat h2"
    by (simp add: NewGame_count_success [OF ok] fresh_def)
qed

theorem NewGame_fails_exactly_witness:
  "(unat (7 :: size_t) > unat (3 :: size_t) * unat (2 :: size_t) \<and>
    (\<exists>c \<in> set [Cell 3 1]. \<not> (cell_x c < (3 :: size_t) \<and> cell_y c < (2 :: size_t))) \<and>
    unat (3 :: size_t) * unat (2 :: size_t) < 2 ^ 64 \<and>
    fst (NewGame_list empty_board 3 2 [Cell 2 1, Cell 0 0, Cell 2 1]) = None \<and>
    fst (NewGame_count rev empty_board 3 2 6) = None) \<and>
   fst (NewGame_count rev empty_board 3 2 7) \<noteq> None \<and>
   fst (NewGame_list empty_board 3 2 [Cell 3 1]) \<noteq> None \<and>
   cells_with_mines (snd (NewGame_list empty_board 3 2 [Cell 2 1, Cell 0 0, Cell 2 1])) =
     set [Cell 2 1, Cell 0 0, Cell 2 1] \<and>
   card (cells_with_mines (snd (NewGame_list empty_board 3 2 [Cell 2 1, Cell 0 0, Cell 2 1]))) \<le>
     unat (3 :: size_t) * unat (2 :: size_t) \<and>
   card (cells_with_mines (snd (NewGame_count rev empty_board 3 2 6))) \<le>
     unat (3 :: size_t) * unat (2 :: size_t) \<and>
   ((\<exists>c \<in> set [Cell 4294967296 0].
       \<not> (cell_x c < (4294967296 :: size_t) \<and> cell_y c < (4294967296 :: size_t))) \<and>
    fst (NewGame_list empty_board 4294967296 4294967296 [Cell 4294967296 0]) \<noteq> None)"
proof -
  have h1: "fst (NewGame_list empty_board 3 2 [Cell 2 1, Cell 0 0, Cell 2 1]) = None"
    by code_simp
  have h2: "fst (NewGame_count rev empty_board 3 2 6) = None"
    by code_simp
  have h3: "unat (3 :: size_t) * unat (2 :: size_t) < 2 ^ 64"
    by simp
  have h4: "unat (7 :: size_t) > unat (3 :: size_t) * unat (2 :: size_t)"
    by simp
  have h5: "\<exists>c \<in> set [Cell 3 1]. \<not> (cell_x c < (3 :: size_t) \<and> cell_y c < (2 :: size_t))"
    by simp
  have h6: "\<exists>c \<in> set [Cell 4294967296 0].
       \<not> (cell_x c < (4294967296 :: size_t) \<and> cell_y c < (4294967296 :: size_t))"
    by simp
  from NewGame_fails_exactly [where w = 3 and h = 2 and mines_count = 7 and shuffle = rev
      and b = empty_board and mine_list = "[Cell 3 1]" and ?b2.0 = empty_board
      and ?w2.0 = 3 and ?h2.0 = 2 and ?mine_list2.0 = "[Cell 2 1, Cell 0 0, Cell 2 1]"
      and ?shuffle2.0 = rev and ?mines_count2.0 = 6] h1 h2 h3 h4 h5
  have a: "fst (NewGame_count rev empty_board 3 2 7) \<noteq> None \<and>
   fst (NewGame_list empty_board 3 2 [Cell 3 1]) \<noteq> None \<and>
   cells_with_mines (snd (NewGame_list empty_board 3 2 [Cell 2 1, Cell 0 0, Cell 2 1])) =
     set [Cell 2 1, Cell 0 0, Cell 2 1] \<and>
   card (cells_with_mines (snd (NewGame_list empty_board 3 2 [Cell 2 1, Cell 0 0, Cell 2 1]))) \<le>
     unat (3 :: size_t) * unat (2 :: size_t) \<and>
   card (cells_with_mines (snd (NewGame_count rev empty_board 3 2 6))) \<le>
     unat (3 :: size_t) * unat (2 :: size_t)"
    by blast
  from NewGame_fails_exactly [where w = 4294967296 and h = 4294967296 and b = empty_board
      and mine_list = "[Cell 4294967296 0]"] h6
  have b: "fst (NewGame_list empty_board 4294967296 4294967296 [Cell 4294967296 0]) \<noteq> None"
    by blast
  from h1 h2 h3 h4 h5 h6 a b show ?thesis by blast
qed

section \<open>The neighbours of a cell\<close>

lemma distinct_neighbor_cells: "distinct (neighbor_cells c)"
  by (cases c) (simp add: neighbor_cells_def offsets_def)

lemma unat_succ_below:
  fixes x w :: size_t
  assumes "x < w"
  shows "unat (x + 1) = Suc (unat x)"
proof -
  have "x \<noteq> - 1"
    using assms by (metis word_n1_ge leD)
  then have "1 + x \<noteq> 0"
    by (metis add.commute add_eq_0_iff)
  then show ?thesis
    using unatSuc [of x] by (simp add: add.commute)
qed

lemma near_iff:
  fixes x x' w :: size_t
  assumes "x < w" and "x' < w"
  shows "(x' = x + (- 1) \<or> x' = x \<or> x' = x + 1) \<longleftrightarrow>
         \<bar>int (unat x') - int (unat x)\<bar> \<le> 1"
proof
  assume "x' = x + (- 1) \<or> x' = x \<or> x' = x + 1"
  then consider (down) "x' = x - 1" | (same) "x' = x" | (up) "x' = x + 1"
    by auto
  then show "\<bar>int (unat x') - int (unat x)\<bar> \<le> 1"
  proof cases
    case down
    have "x \<noteq> 0"
    proof
      assume "x = 0"
      with down have "x' = - 1" by simp
      with assms(2) show False
        by (metis word_n1_ge leD)
    qed
    then have "unat x' = unat x - 1" and "unat x \<noteq> 0"
      unfolding down by (simp_all add: unat_minus_one unat_eq_0)
    then show ?thesis by linarith
  next
    case same
    then show ?thesis by simp
  next
    case up
    then show ?thesis
      using unat_succ_below [OF assms(1)] by simp
  qed
next
  assume a: "\<bar>int (unat x') - int (unat x)\<bar> \<le> 1"
  then consider (down) "Suc (unat x') = unat x" | (same) "unat x' = unat x"
    | (up) "unat x' = Suc (unat x)"
    by linarith
  then show "x' = x + (- 1) \<or> x' = x \<or> x' = x + 1"
  proof cases
    case down
    then have "x \<noteq> 0"
      by (metis Zero_not_Suc unat_0)
    then have "unat (x - 1) = unat x - 1"
      by (rule unat_minus_one)
    with down have "unat x' = unat (x - 1)" by simp
    then have "x' = x - 1"
      by (simp add: word_unat_eq_iff)
    then show ?thesis by simp
  next
    case same
    then show ?thesis by (simp add: word_unat_eq_iff)
  next
    case up
    with unat_succ_below [OF assms(1)] have "unat x' = unat (x + 1)" by simp
    then show ?thesis by (simp add: word_unat_eq_iff)
  qed
qed

lemma mem_neighbor_cells:
  "n \<in> set (neighbor_cells c) \<longleftrightarrow>
     (cell_x n = cell_x c + (- 1) \<or> cell_x n = cell_x c \<or> cell_x n = cell_x c + 1) \<and>
     (cell_y n = cell_y c + (- 1) \<or> cell_y n = cell_y c \<or> cell_y n = cell_y c + 1)"
  by (cases n) (auto simp: neighbor_cells_def offsets_def)

lemma neighbor_cells_adjacent:
  assumes "IsCorrectBoundary b c" and "IsCorrectBoundary b n"
  shows "n \<in> set (neighbor_cells c) \<longleftrightarrow> n = c \<or> adjacent c n"
proof -
  from assms have x: "cell_x c < width b" "cell_x n < width b"
    and y: "cell_y c < height b" "cell_y n < height b"
    by (simp_all add: in_bounds_iff)
  have "n = c \<or> adjacent c n \<longleftrightarrow>
      \<bar>int (unat (cell_x n)) - int (unat (cell_x c))\<bar> \<le> 1 \<and>
      \<bar>int (unat (cell_y n)) - int (unat (cell_y c))\<bar> \<le> 1"
    by (auto simp: adjacent_def)
  then show ?thesis
    unfolding mem_neighbor_cells near_iff [OF x] near_iff [OF y] by simp
qed

text \<open>
  Claim C4.  For an in-bounds cell that is not a mine, the count that \<open>CalcMinesNear\<close>
  returns (the one \<open>OpenCell\<close> and \<open>RenderField\<close> use) is the number of mine cells among
  the in-bounds cells adjacent to it, and there are at most 8 such cells.  Adjacency is
  stated on the coordinates as natural numbers, so a cell in column 0 or row 0 has no
  neighbour to its left or above: the wrapped-around coordinate of the source is never
  inside the grid.
\<close>

theorem CalcMinesNear_counts_adjacent_mines:
  "IsCorrectBoundary b c \<and> \<not> IsMine b c \<longrightarrow>
     unat (CalcMinesNear b c) =
       card {n. IsMine b n \<and> IsCorrectBoundary b n \<and> adjacent c n} \<and>
     card {n. IsCorrectBoundary b n \<and> adjacent c n} \<le> 8"
proof (intro impI conjI)
  assume a: "IsCorrectBoundary b c \<and> \<not> IsMine b c"
  let ?P = "\<lambda>n. IsCorrectBoundary b n \<and> IsMine b n"
  have "set (filter ?P (neighbor_cells c)) =
      {n. IsMine b n \<and> IsCorrectBoundary b n \<and> adjacent c n}"
    using a neighbor_cells_adjacent [of b c] by auto
  moreover have "card (set (filter ?P (neighbor_cells c))) = length (filter ?P (neighbor_cells c))"
    by (rule distinct_card) (simp add: distinct_neighbor_cells)
  ultimately show "unat (CalcMinesNear b c) =
      card {n. IsMine b n \<and> IsCorrectBoundary b n \<and> adjacent c n}"
    by (simp add: unat_CalcMinesNear)
  have "c \<in> set (neighbor_cells c)"
    by (simp add: mem_neighbor_cells)
  then have "card (set (neighbor_cells c) - {c}) = 8"
    by (simp add: distinct_card [OF distinct_neighbor_cells] length_neighbor_cells)
  moreover have "{n. IsCorrectBoundary b n \<and> adjacent c n} \<subseteq> set (neighbor_cells c) - {c}"
    using a neighbor_cells_adjacent [of b c] by (auto simp: adjacent_def)
  ultimately show "card {n. IsCorrectBoundary b n \<and> adjacent c n} \<le> 8"
    by (metis card_mono finite_cells)
qed

theorem CalcMinesNear_counts_adjacent_mines_witness:
  "(IsCorrectBoundary (snd (NewGame_list empty_board 3 3 [Cell 1 0, Cell 1 1, Cell 2 2])) (Cell 0 0) \<and>
    \<not> IsMine (snd (NewGame_list empty_board 3 3 [Cell 1 0, Cell 1 1, Cell 2 2])) (Cell 0 0)) \<and>
   card {n. IsMine (snd (NewGame_list empty_board 3 3 [Cell 1 0, Cell 1 1, Cell 2 2])) n \<and>
            IsCorrectBoundary (snd (NewGame_list empty_board 3 3 [Cell 1 0, Cell 1 1, Cell 2 2])) n \<and>
            adjacent (Cell 0 0) n} = 2"
proof -
  let ?b = "snd (NewGame_list empty_board 3 3 [Cell 1 0, Cell 1 1, Cell 2 2])"
  have h: "IsCorrectBoundary ?b (Cell 0 0) \<and> \<not> IsMine ?b (Cell 0 0)"
    by code_simp
  have v: "unat (CalcMinesNear ?b (Cell 0 0)) = 2"
    by code_simp
  from CalcMinesNear_counts_adjacent_mines [of ?b "Cell 0 0"] h v
  show ?thesis by simp
qed

section \<open>Rendering\<close>

lemma CalcMinesNear_le_9: "unat (CalcMinesNear b c) \<le> 9"
  using length_filter_le [of "\<lambda>n. IsCorrectBoundary b n \<and> IsMine b n" "neighbor_cells c"]
  by (simp add: unat_CalcMinesNear length_neighbor_cells)

lemma to_string_digit: "unat n < 10 \<Longrightarrow> to_string n = [''0123456789'' ! unat n]"
  by (simp add: to_string_def to_string_nat.simps)

lemma cell_text_char: "cell_text b c = [cell_char b c]"
proof -
  have "unat (CalcMinesNear b c) < 10"
    using CalcMinesNear_le_9 [of b c] by simp
  then show ?thesis
    by (simp add: cell_text_def cell_char_def Let_def to_string_digit)
qed

lemma fold_append_row:
  "fold (\<lambda>x result. result[j := result ! j @ f x]) xs r = r[j := r ! j @ concat (map f xs)]"
proof (induction xs arbitrary: r)
  case Nil
  then show ?case by simp
next
  case (Cons x xs)
  show ?case
  proof (cases "j < length r")
    case True
    then show ?thesis by (simp add: Cons.IH)
  next
    case False
    then have "length r \<le> j" by simp
    then have "r[j := v] = r" for v
      by (rule list_update_beyond)
    then show ?thesis by (simp add: Cons.IH)
  qed
qed

lemma fold_rows:
  "distinct ks \<Longrightarrow> \<forall>k \<in> set ks. k < length r \<Longrightarrow>
   fold (\<lambda>k result. result[k := result ! k @ g k]) ks r =
     map (\<lambda>k. if k \<in> set ks then r ! k @ g k else r ! k) [0..<length r]"
proof (induction ks arbitrary: r)
  case Nil
  then show ?case by (simp add: map_nth)
next
  case (Cons k ks)
  let ?r = "r[k := r ! k @ g k]"
  have "fold (\<lambda>k result. result[k := result ! k @ g k]) (k # ks) r =
      map (\<lambda>i. if i \<in> set ks then ?r ! i @ g i else ?r ! i) [0..<length ?r]"
    using Cons.prems by (simp add: Cons.IH)
  also have "\<dots> = map (\<lambda>i. if i \<in> set (k # ks) then r ! i @ g i else r ! i) [0..<length r]"
    using Cons.prems by (auto simp: nth_list_update)
  finally show ?case .
qed

lemma unat_of_nat_index:
  "k < unat (n :: size_t) \<Longrightarrow> unat (of_nat k :: size_t) = k"
proof -
  assume "k < unat n"
  moreover have "unat n < 2 ^ 64"
    using unsigned_less [of n, where 'a = nat] by simp
  ultimately show ?thesis
    by (simp add: unat_of_nat)
qed

lemma RenderField_rows:
  "RenderField b =
     map (\<lambda>j. map (\<lambda>x. cell_char b (Cell x (of_nat j))) (indices (width b)))
         [0..<unat (height b)]"
proof -
  let ?H = "unat (height b)"
  let ?G = "\<lambda>y. concat (map (\<lambda>x. cell_text b (Cell x y)) (indices (width b)))"
  let ?g = "\<lambda>k. ?G (of_nat k)"
  have inner: "(\<lambda>y result. fold (\<lambda>x result.
                   result[unat y := result ! unat y @ cell_text b (Cell x y)])
                 (indices (width b)) result) =
      (\<lambda>y result. result[unat y := result ! unat y @ ?G y])"
    by (intro ext) (rule fold_append_row)
  have "RenderField b =
      fold (\<lambda>y result. result[unat y := result ! unat y @ ?G y])
        (map of_nat [0..<?H]) (replicate ?H [])"
    unfolding RenderField_def inner by (simp only: indices_def)
  also have "\<dots> = fold ((\<lambda>y result. result[unat y := result ! unat y @ ?G y]) \<circ> of_nat)
        [0..<?H] (replicate ?H [])"
    by (simp only: fold_map)
  also have "\<dots> = fold (\<lambda>k result. result[k := result ! k @ ?g k]) [0..<?H] (replicate ?H [])"
    by (rule fold_cong) (simp_all add: unat_of_nat_index)
  also have "\<dots> = map (\<lambda>k. if k \<in> set [0..<?H] then replicate ?H [] ! k @ ?g k
                          else replicate ?H [] ! k) [0..<length (replicate ?H ([] :: string))]"
    by (rule fold_rows) simp_all
  also have "\<dots> = map ?g [0..<?H]"
    by simp
  also have "?g = (\<lambda>j. map (\<lambda>x. cell_char b (Cell x (of_nat j))) (indices (width b)))"
    by (rule ext) (simp add: cell_text_char concat_map_singleton)
  finally show ?thesis .
qed

lemma nth_indices: "i < n \<Longrightarrow> indices n ! unat i = i"
  by (simp add: indices_def word_less_nat_alt)

lemma length_indices [simp]: "length (indices n) = unat n"
  by (simp add: indices_def)

lemma RenderField_cell:
  assumes "y < height b" and "x < width b"
  shows "RenderField b ! unat y ! unat x = cell_char b (Cell x y)"
    and "length (RenderField b ! unat y) = unat (width b)"
  using assms by (simp_all add: RenderField_rows word_less_nat_alt nth_indices)

text \<open>
  Claim C6.  \<open>RenderField\<close> returns \<open>height\<close> strings of \<open>width\<close> characters each; the
  character in row \<open>y\<close>, column \<open>x\<close> is \<open>*\<close> if the cell is a mine and the status is
  DEFEAT, otherwise \<open>?\<close> if it is flagged, otherwise \<open>-\<close> if it is closed, otherwise
  \<open>.\<close> if its neighbour-mine count (\<open>CalcMinesNear\<close>, which is at most 9) is zero and
  the decimal digit of that count if not.  In particular a flagged mine on a DEFEAT board
  is rendered as \<open>*\<close>.
\<close>

theorem RenderField_grid:
  "length (RenderField b) = unat (height b) \<and>
   (y < height b \<longrightarrow> length (RenderField b ! unat y) = unat (width b)) \<and>
   (y < height b \<and> x < width b \<longrightarrow>
      RenderField b ! unat y ! unat x =
        (if IsMine b (Cell x y) \<and> status b = DEFEAT then CHR ''*''
         else if IsMarked b (Cell x y) then CHR ''?''
         else if IsClosed b (Cell x y) then CHR ''-''
         else if CalcMinesNear b (Cell x y) = 0 then CHR ''.''
         else ''0123456789'' ! unat (CalcMinesNear b (Cell x y)))) \<and>
   unat (CalcMinesNear b (Cell x y)) \<le> 9 \<and>
   (IsCorrectBoundary b c \<and> IsMine b c \<and> IsMarked b c \<and> status b = DEFEAT \<longrightarrow>
      RenderField b ! unat (cell_y c) ! unat (cell_x c) = CHR ''*'')"
proof (intro conjI impI)
  show "length (RenderField b) = unat (height b)"
    by (simp add: RenderField_rows)
  show "unat (CalcMinesNear b (Cell x y)) \<le> 9"
    by (rule CalcMinesNear_le_9)
next
  assume "y < height b"
  then show "length (RenderField b ! unat y) = unat (width b)"
    by (simp add: RenderField_rows word_less_nat_alt)
next
  assume "y < height b \<and> x < width b"
  then show "RenderField b ! unat y ! unat x =
        (if IsMine b (Cell x y) \<and> status b = DEFEAT then CHR ''*''
         else if IsMarked b (Cell x y) then CHR ''?''
         else if IsClosed b (Cell x y) then CHR ''-''
         else if CalcMinesNear b (Cell x y) = 0 then CHR ''.''
         else ''0123456789'' ! unat (CalcMinesNear b (Cell x y)))"
    by (simp only: RenderField_cell(1) cell_char_def)
next
  assume a: "IsCorrectBoundary b c \<and> IsMine b c \<and> IsMarked b c \<and> status b = DEFEAT"
  then have "cell_y c < height b" "cell_x c < width b"
    by (simp_all add: in_bounds_iff)
  then have "RenderField b ! unat (cell_y c) ! unat (cell_x c) = cell_char b (Cell (cell_x c) (cell_y c))"
    by (rule RenderField_cell(1))
  with a show "RenderField b ! unat (cell_y c) ! unat (cell_x c) = CHR ''*''"
    by (simp add: cell_char_def)
qed

theorem RenderField_grid_witness:
  "((1 :: size_t) < height (play (snd (NewGame_list empty_board 3 2 [Cell 2 1, Cell 0 0]))
        [CallMark 1 (Cell 2 1), CallOpen 2 3 (Cell 0 0)]) \<and>
    (2 :: size_t) < width (play (snd (NewGame_list empty_board 3 2 [Cell 2 1, Cell 0 0]))
        [CallMark 1 (Cell 2 1), CallOpen 2 3 (Cell 0 0)])) \<and>
   (IsCorrectBoundary (play (snd (NewGame_list empty_board 3 2 [Cell 2 1, Cell 0 0]))
        [CallMark 1 (Cell 2 1), CallOpen 2 3 (Cell 0 0)]) (Cell 2 1) \<and>
    IsMine (play (snd (NewGame_list empty_board 3 2 [Cell 2 1, Cell 0 0]))
        [CallMark 1 (Cell 2 1), CallOpen 2 3 (Cell 0 0)]) (Cell 2 1) \<and>
    IsMarked (play (snd (NewGame_list empty_board 3 2 [Cell 2 1, Cell 0 0]))
        [CallMark 1 (Cell 2 1), CallOpen 2 3 (Cell 0 0)]) (Cell 2 1) \<and>
    status (play (snd (NewGame_list empty_board 3 2 [Cell 2 1, Cell 0 0]))
        [CallMark 1 (Cell 2 1), CallOpen 2 3 (Cell 0 0)]) = DEFEAT) \<and>
   RenderField (play (snd (NewGame_list empty_board 3 2 [Cell 2 1, Cell 0 0]))
        [CallMark 1 (Cell 2 1), CallOpen 2 3 (Cell 0 0)]) ! 1 ! 2 = CHR ''*'' \<and>
   length (RenderField (play (snd (NewGame_list empty_board 3 2 [Cell 2 1, Cell 0 0]))
        [CallMark 1 (Cell 2 1), CallOpen 2 3 (Cell 0 0)]) ! 1) = 3"
proof -
  let ?b = "play (snd (NewGame_list empty_board 3 2 [Cell 2 1, Cell 0 0]))
        [CallMark 1 (Cell 2 1), CallOpen 2 3 (Cell 0 0)]"
  have h1: "(1 :: size_t) < height ?b \<and> (2 :: size_t) < width ?b"
    by code_simp
  have h2: "IsCorrectBoundary ?b (Cell 2 1) \<and> IsMine ?b (Cell 2 1) \<and> IsMarked ?b (Cell 2 1) \<and>
      status ?b = DEFEAT"
    by code_simp
  have w: "unat (width ?b) = 3"
    by code_simp
  have e: "unat (1 :: size_t) = 1" "unat (cell_y (Cell 2 1)) = 1" "unat (cell_x (Cell 2 1)) = 2"
    by simp_all
  from RenderField_grid [of ?b 1 2 "Cell 2 1"] h1 h2
  have "length (RenderField ?b ! unat (1 :: size_t)) = unat (width ?b) \<and>
      RenderField ?b ! unat (cell_y (Cell 2 1)) ! unat (cell_x (Cell 2 1)) = CHR ''*''"
    by blast
  then have "length (RenderField ?b ! 1) = 3 \<and> RenderField ?b ! 1 ! 2 = CHR ''*''"
    by (simp only: w e)
  with h1 h2 show ?thesis by blast
qed

section \<open>The flood fill on a board without mines\<close>

lemma word_line_down:
  fixes a w :: size_t
  assumes down: "\<And>x. x < w \<Longrightarrow> x \<noteq> 0 \<Longrightarrow> P x \<Longrightarrow> P (x - 1)"
  shows "a < w \<Longrightarrow> P a \<Longrightarrow> P 0"
proof (induction "unat a" arbitrary: a)
  case 0
  then have "a = 0" by (simp add: unat_eq_0)
  with "0.prems" show ?case by simp
next
  case (Suc k)
  then have nz: "a \<noteq> 0"
    by (metis Zero_not_Suc unat_0)
  then have u: "unat (a - 1) = k"
    using Suc.hyps(2) by (simp add: unat_minus_one)
  have "a - 1 < w"
    using Suc.prems(1) nz u Suc.hyps(2) by (simp add: word_less_nat_alt)
  moreover have "P (a - 1)"
    using down [OF Suc.prems(1) nz Suc.prems(2)] .
  ultimately show ?case
    using Suc.hyps(1) [of "a - 1"] u by simp
qed

lemma word_line:
  fixes a w d :: size_t
  assumes "a < w" and "P a"
    and up: "\<And>x. x < w \<Longrightarrow> x + 1 < w \<Longrightarrow> P x \<Longrightarrow> P (x + 1)"
    and down: "\<And>x. x < w \<Longrightarrow> x \<noteq> 0 \<Longrightarrow> P x \<Longrightarrow> P (x - 1)"
    and "d < w"
  shows "P d"
proof -
  have zero: "P 0"
    using word_line_down [of w P a] down assms(1,2) by blast
  show ?thesis
  proof (induction d rule: word_induct_less)
    case zero
    show ?case by (rule \<open>P 0\<close>)
  next
    case (less n)
    from less(1) have "n + 1 \<le> d" by (rule inc_le)
    with \<open>d < w\<close> have "n + 1 < w" by simp
    moreover from less(1) \<open>d < w\<close> have "n < w" by simp
    ultimately have "P (n + 1)"
      using up less(2) by blast
    then show ?case by (simp add: add.commute)
  qed
qed

lemma grid_connected:
  assumes start: "c \<in> S" "IsCorrectBoundary b c"
    and step: "\<And>n m. n \<in> S \<Longrightarrow> IsCorrectBoundary b n \<Longrightarrow> m \<in> set (neighbor_cells n) \<Longrightarrow>
                 IsCorrectBoundary b m \<Longrightarrow> m \<in> S"
    and d: "IsCorrectBoundary b d"
  shows "d \<in> S"
proof -
  from start(2) d have cx: "cell_x c < width b" and cy: "cell_y c < height b"
    and dx: "cell_x d < width b" and dy: "cell_y d < height b"
    by (simp_all add: in_bounds_iff)
  have row: "Cell x (cell_y c) \<in> S" if "x < width b" for x
  proof (rule word_line [where P = "\<lambda>x. Cell x (cell_y c) \<in> S", OF cx _ _ _ that])
    show "Cell (cell_x c) (cell_y c) \<in> S"
      using start(1) by simp
  next
    fix x assume "x < width b" "x + 1 < width b" "Cell x (cell_y c) \<in> S"
    then show "Cell (x + 1) (cell_y c) \<in> S"
      using cy step [of "Cell x (cell_y c)" "Cell (x + 1) (cell_y c)"]
      by (simp add: in_bounds_iff mem_neighbor_cells)
  next
    fix x assume "x < width b" "x \<noteq> 0" "Cell x (cell_y c) \<in> S"
    moreover from this have "x - 1 < width b"
      by (metis word_less_nat_alt unat_minus_one less_imp_diff_less)
    ultimately show "Cell (x - 1) (cell_y c) \<in> S"
      using cy step [of "Cell x (cell_y c)" "Cell (x - 1) (cell_y c)"]
      by (simp add: in_bounds_iff mem_neighbor_cells)
  qed
  have "Cell (cell_x d) y \<in> S" if "y < height b" for y
  proof (rule word_line [where P = "\<lambda>y. Cell (cell_x d) y \<in> S", OF cy _ _ _ that])
    show "Cell (cell_x d) (cell_y c) \<in> S"
      by (rule row [OF dx])
  next
    fix y assume "y < height b" "y + 1 < height b" "Cell (cell_x d) y \<in> S"
    then show "Cell (cell_x d) (y + 1) \<in> S"
      using dx step [of "Cell (cell_x d) y" "Cell (cell_x d) (y + 1)"]
      by (simp add: in_bounds_iff mem_neighbor_cells)
  next
    fix y assume "y < height b" "y \<noteq> 0" "Cell (cell_x d) y \<in> S"
    moreover from this have "y - 1 < height b"
      by (metis word_less_nat_alt unat_minus_one less_imp_diff_less)
    ultimately show "Cell (cell_x d) (y - 1) \<in> S"
      using dx step [of "Cell (cell_x d) y" "Cell (cell_x d) (y - 1)"]
      by (simp add: in_bounds_iff mem_neighbor_cells)
  qed
  from this [OF dy] show ?thesis by simp
qed

lemma flood_closure:
  assumes "cells_with_mines b = {}" and "marked_cells b = {}"
    and "\<forall>n. IsCorrectBoundary b n \<and> n \<notin> closed_cells b \<longrightarrow>
           n \<in> set q \<or>
           (\<forall>m \<in> set (neighbor_cells n). IsCorrectBoundary b m \<longrightarrow> m \<notin> closed_cells b)"
  shows "\<forall>n. IsCorrectBoundary b n \<and> n \<notin> closed_cells (flood b q) \<longrightarrow>
           (\<forall>m \<in> set (neighbor_cells n).
              IsCorrectBoundary b m \<longrightarrow> m \<notin> closed_cells (flood b q))"
  using assms
proof (induction b q rule: flood.induct)
  case (1 b)
  then show ?case by (simp add: flood.simps)
next
  case (2 b cur_cell q)
  let ?E = "{n \<in> set (neighbor_cells cur_cell). IsCorrectBoundary b n \<and> n \<notin> marked_cells b}"
  let ?b1 = "b\<lparr>closed_cells := closed_cells b - ?E\<rparr>"
  have zero: "CalcMinesNear b cur_cell = 0"
    using "2.prems"(1) by (simp add: CalcMinesNear_zero_iff IsMine_def)
  from expand_result [of cur_cell q b] obtain new where
    e: "expand cur_cell (q, b) = (q @ new, ?b1)" and
    n: "set new = {n \<in> set (neighbor_cells cur_cell).
                 IsCorrectBoundary b n \<and> n \<in> closed_cells b \<and> n \<notin> marked_cells b}"
    by blast
  have f: "flood b (cur_cell # q) = flood ?b1 (q @ new)"
    by (simp only: flood.simps zero if_True e prod.case simp_thms)
  have c1: "closed_cells ?b1 = closed_cells b - ?E" by simp
  have m1: "marked_cells ?b1 = {}" using "2.prems"(2) by simp
  have w1: "cells_with_mines ?b1 = {}" using "2.prems"(1) by simp
  have i1: "IsCorrectBoundary ?b1 = IsCorrectBoundary b" by simp
  have inv: "\<forall>n. IsCorrectBoundary ?b1 n \<and> n \<notin> closed_cells ?b1 \<longrightarrow>
           n \<in> set (q @ new) \<or>
           (\<forall>m \<in> set (neighbor_cells n). IsCorrectBoundary ?b1 m \<longrightarrow> m \<notin> closed_cells ?b1)"
    unfolding c1 i1
  proof (intro allI impI)
    fix k
    assume k: "IsCorrectBoundary b k \<and> k \<notin> closed_cells b - ?E"
    show "k \<in> set (q @ new) \<or>
        (\<forall>m \<in> set (neighbor_cells k). IsCorrectBoundary b m \<longrightarrow> m \<notin> closed_cells b - ?E)"
    proof (cases "k \<in> closed_cells b")
      case True
      with k have "k \<in> set new"
        unfolding n by blast
      then show ?thesis by simp
    next
      case False
      with k "2.prems"(3) have "k \<in> set (cur_cell # q) \<or>
          (\<forall>m \<in> set (neighbor_cells k). IsCorrectBoundary b m \<longrightarrow> m \<notin> closed_cells b)"
        by blast
      then consider (cur) "k = cur_cell" | (queue) "k \<in> set q"
        | (opened) "\<forall>m \<in> set (neighbor_cells k). IsCorrectBoundary b m \<longrightarrow> m \<notin> closed_cells b"
        by auto
      then show ?thesis
      proof cases
        case cur
        then show ?thesis
          using "2.prems"(2) by blast
      next
        case queue
        then show ?thesis by simp
      next
        case opened
        then show ?thesis by blast
      qed
    qed
  qed
  from "2.IH"(1) [OF zero e [symmetric] w1 m1 inv]
  show ?case
    unfolding f i1 .
qed

lemma flood_opens_everything:
  assumes mines: "cells_with_mines b = {}" and marks: "marked_cells b = {}"
    and closed: "closed_cells b = {n. IsCorrectBoundary b n} - {c}"
    and c: "IsCorrectBoundary b c"
  shows "closed_cells (flood b [c]) = {}"
proof -
  let ?S = "{n. n \<notin> closed_cells (flood b [c])}"
  have sub: "closed_cells (flood b [c]) \<subseteq> closed_cells b"
    by (rule flood_closed_subset)
  have "\<forall>n. IsCorrectBoundary b n \<and> n \<notin> closed_cells b \<longrightarrow>
           n \<in> set [c] \<or>
           (\<forall>m \<in> set (neighbor_cells n). IsCorrectBoundary b m \<longrightarrow> m \<notin> closed_cells b)"
    unfolding closed by simp
  from flood_closure [OF mines marks this]
  have step: "m \<in> ?S" if "n \<in> ?S" "IsCorrectBoundary b n" "m \<in> set (neighbor_cells n)"
      "IsCorrectBoundary b m" for n m
    using that by blast
  have "c \<in> ?S"
    using sub closed by blast
  then have "d \<in> ?S" if "IsCorrectBoundary b d" for d
    using grid_connected [of c ?S b d] c step that by blast
  then show ?thesis
    using sub closed by blast
qed

text \<open>
  Claim C5.  On a board of positive width and height that has just been set up with zero
  mines (by either overload, which then always succeeds), one \<open>OpenCell\<close> call on any
  in-bounds cell returns normally, leaves the closed set empty, so that every cell of the
  grid is open, and sets the status to VICTORY, with the finish time recorded.
\<close>

theorem zero_mines_open_floods_board:
  assumes "b0 = snd (NewGame_list b w h []) \<or> b0 = snd (NewGame_count shuffle b w h 0)"
    and "0 < w \<and> 0 < h"
    and "IsCorrectBoundary b0 c"
  shows "fst (NewGame_list b w h []) = None \<and> fst (NewGame_count shuffle b w h 0) = None \<and>
         fst (OpenCell now_start now_finish b0 c) = None \<and>
         closed_cells (snd (OpenCell now_start now_finish b0 c)) = {} \<and>
         GetGameStatus (snd (OpenCell now_start now_finish b0 c)) = VICTORY \<and>
         finish_time (snd (OpenCell now_start now_finish b0 c)) = now_finish"
proof -
  have ok: "fst (NewGame_list b w h []) = None" "fst (NewGame_count shuffle b w h 0) = None"
    by (simp_all add: setup_defs)
  have b0: "b0 = fresh w h {}"
    using assms(1) NewGame_list_success [OF ok(1)] NewGame_count_success [OF ok(2)] by auto
  let ?b1 = "StartGame now_start b0"
  let ?b2 = "?b1\<lparr>closed_cells := closed_cells ?b1 - {c}\<rparr>"
  have c: "cell_x c < w" "cell_y c < h"
    using assms(3) by (simp_all add: b0 in_bounds_iff)
  have "closed_cells (flood ?b2 [c]) = {}"
  proof (rule flood_opens_everything)
    show "cells_with_mines ?b2 = {}" "marked_cells ?b2 = {}"
      by (simp_all add: b0 StartGame_def)
    show "closed_cells ?b2 = {n. IsCorrectBoundary ?b2 n} - {c}"
      by (simp add: b0 StartGame_def in_bounds_iff)
    show "IsCorrectBoundary ?b2 c"
      using c by (simp add: b0 StartGame_def in_bounds_iff)
  qed
  moreover have "cells_with_mines (flood ?b2 [c]) = {}"
    by (simp add: b0 StartGame_def)
  ultimately have v: "VictoryCheck now_finish (flood ?b2 [c]) =
      (flood ?b2 [c])\<lparr>status := VICTORY, finish_time := now_finish\<rparr>"
    by (simp add: VictoryCheck_def)
  have "OpenCell now_start now_finish b0 c = (None, VictoryCheck now_finish (flood ?b2 [c]))"
    using c by (simp add: OpenCell_def b0 query_defs in_bounds_iff Let_def StartGame_def)
  with v \<open>closed_cells (flood ?b2 [c]) = {}\<close> ok show ?thesis
    by (simp add: GetGameStatus_def)
qed

theorem zero_mines_open_floods_board_witness:
  "((0 :: size_t) < 5 \<and> (0 :: size_t) < 5) \<and>
   IsCorrectBoundary (snd (NewGame_count rev empty_board 5 5 0)) (Cell 3 1) \<and>
   closed_cells (snd (OpenCell 1 2 (snd (NewGame_count rev empty_board 5 5 0)) (Cell 3 1))) = {} \<and>
   GetGameStatus (snd (OpenCell 1 2 (snd (NewGame_count rev empty_board 5 5 0)) (Cell 3 1))) = VICTORY"
proof -
  have h1: "(0 :: size_t) < 5 \<and> (0 :: size_t) < 5"
    by simp
  have h2: "IsCorrectBoundary (snd (NewGame_count rev empty_board 5 5 0)) (Cell 3 1)"
    by code_simp
  from zero_mines_open_floods_board [of "snd (NewGame_count rev empty_board 5 5 0)" empty_board 5 5
      rev "Cell 3 1" 1 2] h1 h2
  show ?thesis by blast
qed

section \<open>Constructed boards\<close>

text \<open>
  A board that a constructor builds is the board that \<open>NewGame\<close> with the same arguments
  leaves, whatever board \<open>NewGame\<close> is called on; so what is proved above about boards
  after a successful \<open>NewGame\<close> holds for freshly constructed boards as well.
\<close>

lemma Minesweeper_list_NewGame:
  "fst (Minesweeper_list w h mine_list) = fst (NewGame_list b w h mine_list) \<and>
   (fst (Minesweeper_list w h mine_list) = None \<longrightarrow>
      snd (Minesweeper_list w h mine_list) = snd (NewGame_list b w h mine_list))"
  by (auto simp: Minesweeper_list_def setup_defs empty_board_def FillClosed_closed
      fold_insert_set in_bounds_iff list_all_iff)

lemma Minesweeper_count_NewGame:
  "Minesweeper_count shuffle w h mines_count = NewGame_count shuffle empty_board w h mines_count \<and>
   (fst (Minesweeper_count shuffle w h mines_count) = None \<longrightarrow>
      snd (Minesweeper_count shuffle w h mines_count) =
      snd (NewGame_count shuffle b w h mines_count))"
  by (auto simp: Minesweeper_count_def setup_defs empty_board_def FillClosed_closed
      FillMines_def possible_mine_def fold_insert_set in_bounds_iff)

end
